theory Spec2Isabelle
  imports Main "HOL-Library.Code_Target_Numeral"
begin

section \<open>The KV cache of \<open>llama-kv-cache.cpp\<close>: data model\<close>

text \<open>
  \<open>llama_pos\<close> and \<open>llama_seq_id\<close> are \<open>int32_t\<close>. Positions and sequence ids are
  mathematical integers here, and signed overflow, which is undefined in C++, is an error
  value: where the code adds, subtracts or divides positions, the model checks that the
  result is a value of \<open>int32_t\<close> (\<open>i32_result\<close>). The unsigned 32-bit counters
  (\<open>size\<close>, \<open>head\<close>, \<open>used\<close>, \<open>n\<close>) are natural numbers; where the code's unsigned arithmetic
  can wrap, the wrap-around is written out (\<open>u32\<close>, \<open>dec32\<close>).
\<close>

type_synonym llama_pos = int
type_synonym llama_seq_id = int

definition llama_pos_max :: llama_pos where
  \<comment> \<open>\<open>std::numeric_limits<llama_pos>::max()\<close>\<close>
  "llama_pos_max = 2147483647"

definition u32 :: "int \<Rightarrow> nat" where
  \<comment> \<open>conversion of an integer value to \<open>uint32_t\<close>\<close>
  "u32 x = nat (x mod 4294967296)"

definition dec32 :: "nat \<Rightarrow> nat" where
  \<comment> \<open>\<open>x--\<close> on a \<open>uint32_t\<close>\<close>
  "dec32 x = (if x = 0 then 4294967295 else x - 1)"

definition add32 :: "nat \<Rightarrow> nat \<Rightarrow> nat" where
  \<comment> \<open>\<open>x + y\<close> on \<open>uint32_t\<close>\<close>
  "add32 x y = (x + y) mod 4294967296"

definition cdiv :: "int \<Rightarrow> int \<Rightarrow> int" where
  \<comment> \<open>C++ integer division truncates towards zero; the divisor is not zero\<close>
  "cdiv a b = sgn a * sgn b * (\<bar>a\<bar> div \<bar>b\<bar>)"

text \<open>
  Modelled from the spec: the cell record \<open>llama_kv_cell\<close> is declared in
  \<open>llama-kv-cache.h\<close>, which is not among the sources. Section 3 of the specification
  gives its attributes (\<open>pos\<close>, \<open>delta\<close>, \<open>src\<close>, \<open>tail\<close>, and the set \<open>seq_id\<close>), that a
  cell is born empty with \<open>pos = -1\<close>, \<open>src = -1\<close>, \<open>tail = -1\<close>, and that a cell is
  empty iff its set of sequence ids is empty. The accumulator \<open>delta\<close> starts at \<open>0\<close>.
\<close>

record llama_kv_cell =
  pos :: llama_pos
  delta :: llama_pos
  src :: int
  tail :: int
  seq_id :: "llama_seq_id set"

definition default_cell :: llama_kv_cell where
  "default_cell = \<lparr>pos = -1, delta = 0, src = -1, tail = -1, seq_id = {}\<rparr>"

definition has_seq_id :: "llama_kv_cell \<Rightarrow> llama_seq_id \<Rightarrow> bool" where
  "has_seq_id c sid = (sid \<in> seq_id c)"

definition is_empty :: "llama_kv_cell \<Rightarrow> bool" where
  "is_empty c = (seq_id c = {})"

text \<open>
  Modelled from the spec: the members of \<open>llama_kv_cache\<close> are declared in the same
  header. The record keeps the bookkeeping members the operations of
  \<open>llama-kv-cache.cpp\<close> read and write; the tensors and backend buffers are outside the
  model. The members \<open>size\<close> and \<open>n\<close> are named \<open>size_kv\<close> and \<open>n_kv\<close>.
\<close>

record llama_kv_cache =
  has_shift :: bool
  do_defrag :: bool
  recurrent :: bool
  head :: nat
  size_kv :: nat
  used :: nat
  n_kv :: nat
  cells :: "llama_kv_cell list"

definition init :: "bool \<Rightarrow> nat \<Rightarrow> llama_kv_cache" where
  \<comment> \<open>the bookkeeping part of \<open>llama_kv_cache::init\<close>: \<open>cells.resize(kv_size)\<close> default-constructs the cells\<close>
  "init is_recurrent kv_size =
     \<lparr>has_shift = False, do_defrag = False, recurrent = is_recurrent,
      head = 0, size_kv = kv_size, used = 0, n_kv = 0,
      cells = replicate kv_size default_cell\<rparr>"

definition wf_cache :: "llama_kv_cache \<Rightarrow> bool" where
  \<comment> \<open>\<open>cells\<close> has exactly \<open>size\<close> elements, as \<open>init\<close> leaves it\<close>
  "wf_cache s = (length (cells s) = size_kv s)"

definition norm_p0 :: "llama_pos \<Rightarrow> llama_pos" where
  "norm_p0 p0 = (if p0 < 0 then 0 else p0)"

definition norm_p1 :: "llama_pos \<Rightarrow> llama_pos" where
  "norm_p1 p1 = (if p1 < 0 then llama_pos_max else p1)"

datatype error = Assert_Failed | Out_Of_Bounds | Div_By_Zero | Signed_Overflow | Non_Termination

text \<open>
  A failed \<open>GGML_ASSERT\<close> aborts the process (\<open>Assert_Failed\<close>); an access outside a vector
  or array (\<open>Out_Of_Bounds\<close>), an integer division by zero (\<open>Div_By_Zero\<close>) and a signed
  32-bit operation whose result is not a value of \<open>int32_t\<close> (\<open>Signed_Overflow\<close>) are undefined
  behaviour; \<open>Non_Termination\<close> stands for a loop that does not return. An operation
  that can reach one of them returns \<open>error + 'a\<close>. The loops
  \<open>for (i = 0; i < size; ++i)\<close> index \<open>cells[i]\<close> within \<open>cells\<close> as long as \<open>wf_cache\<close> holds.
\<close>

definition bind_res :: "error + 'a \<Rightarrow> ('a \<Rightarrow> error + 'b) \<Rightarrow> error + 'b" where
  "bind_res m f = (case m of Inl e \<Rightarrow> Inl e | Inr x \<Rightarrow> f x)"

fun fold_res :: "('a \<Rightarrow> 's \<Rightarrow> error + 's) \<Rightarrow> 'a list \<Rightarrow> 's \<Rightarrow> error + 's" where
  "fold_res f [] s = Inr s"
| "fold_res f (x # xs) s = bind_res (f x s) (fold_res f xs)"

definition cell_at :: "llama_kv_cache \<Rightarrow> int \<Rightarrow> error + llama_kv_cell" where
  \<comment> \<open>\<open>cells[i]\<close> for an index computed from data\<close>
  "cell_at s i = (if 0 \<le> i \<and> nat i < length (cells s) then Inr (cells s ! nat i) else Inl Out_Of_Bounds)"

definition set_cell :: "llama_kv_cache \<Rightarrow> int \<Rightarrow> llama_kv_cell \<Rightarrow> llama_kv_cache" where
  \<comment> \<open>writing through a reference \<open>cells[i]\<close> obtained by \<open>cell_at\<close>\<close>
  "set_cell s i c = s\<lparr>cells := (cells s)[nat i := c]\<rparr>"

definition i32 :: "int \<Rightarrow> int" where
  \<comment> \<open>conversion of an unsigned value to \<open>int32_t\<close>\<close>
  "i32 x = (x + 2147483648) mod 4294967296 - 2147483648"

definition in_i32 :: "int \<Rightarrow> bool" where
  \<comment> \<open>the values of \<open>int32_t\<close>\<close>
  "in_i32 x = (- 2147483648 \<le> x \<and> x \<le> 2147483647)"

definition i32_result :: "int \<Rightarrow> error + int" where
  \<comment> \<open>the result of a signed 32-bit addition, subtraction or division, given its exact value\<close>
  "i32_result x = (if in_i32 x then Inr x else Inl Signed_Overflow)"

section \<open>Sequence operations\<close>

subsection \<open>\<open>clear\<close>\<close>

definition clear :: "llama_kv_cache \<Rightarrow> llama_kv_cache" where
  \<comment> \<open>the loop runs while \<open>i < (int32_t) size\<close>\<close>
  "clear s =
     (let s1 = fold (\<lambda>i s. s\<lparr>cells := (cells s)[i := (cells s ! i)\<lparr>pos := -1, seq_id := {}, src := -1, tail := -1\<rparr>]\<rparr>)
                 [0..<nat (i32 (int (size_kv s)))] s
      in s1\<lparr>head := 0, used := 0\<rparr>)"

subsection \<open>\<open>seq_rm\<close>\<close>

definition seq_rm_recurrent ::
  "llama_kv_cache \<Rightarrow> llama_seq_id \<Rightarrow> llama_pos \<Rightarrow> llama_pos \<Rightarrow> error + llama_kv_cache option" where
  \<comment> \<open>the block under \<open>if (recurrent)\<close>; \<open>None\<close> is \<open>return false\<close>\<close>
  "seq_rm_recurrent s sid p0 p1 =
     (if sid \<ge> int (size_kv s) then Inr None
      else if 0 \<le> sid then
        bind_res (cell_at s sid) (\<lambda>seq.
          let tail_id = tail seq in
          if tail_id \<ge> 0 then
            bind_res (cell_at s tail_id) (\<lambda>cell.
              if (0 < p0 \<and> p0 \<le> pos cell) \<or> (0 < p1 \<and> p1 \<le> pos cell) then Inr None
              else if p0 \<le> pos cell \<and> pos cell < p1
                then Inr (Some (set_cell s sid (seq\<lparr>tail := -1\<rparr>)))
                else Inr (Some s))
          else Inr (Some s))
      else if p0 \<noteq> p1 \<and> (p0 \<noteq> 0 \<or> p1 \<noteq> llama_pos_max) then Inr None
      else Inr (Some s))"

definition seq_rm_step ::
  "llama_seq_id \<Rightarrow> llama_pos \<Rightarrow> llama_pos \<Rightarrow> nat \<Rightarrow>
   llama_kv_cache \<times> nat \<Rightarrow> llama_kv_cache \<times> nat" where
  "seq_rm_step sid p0 p1 i = (\<lambda>(s, new_head).
     let c = cells s ! i in
     if pos c \<ge> p0 \<and> pos c < p1 then
       if sid < 0 \<or> has_seq_id c sid then
         let c1 = (if sid < 0 then c\<lparr>seq_id := {}\<rparr> else c\<lparr>seq_id := seq_id c - {sid}\<rparr>)
         in if is_empty c1 then
              (s\<lparr>used := (if pos c1 \<ge> 0 then dec32 (used s) else used s),
                 cells := (cells s)[i := c1\<lparr>pos := -1, src := -1\<rparr>]\<rparr>,
               if new_head = size_kv s then i else new_head)
            else (s\<lparr>cells := (cells s)[i := c1]\<rparr>, new_head)
       else (s, new_head)
     else (s, new_head))"

definition seq_rm ::
  "llama_kv_cache \<Rightarrow> llama_seq_id \<Rightarrow> llama_pos \<Rightarrow> llama_pos \<Rightarrow> error + (bool \<times> llama_kv_cache)" where
  "seq_rm s sid p0 p1 =
     (let p0' = norm_p0 p0; p1' = norm_p1 p1 in
      bind_res (if recurrent s then seq_rm_recurrent s sid p0' p1' else Inr (Some s)) (\<lambda>r.
        case r of
          None \<Rightarrow> Inr (False, s)
        | Some s1 \<Rightarrow>
            (let (s2, new_head) = fold (seq_rm_step sid p0' p1') [0..<size_kv s1] (s1, size_kv s1)
             in Inr (True, if new_head \<noteq> size_kv s2 \<and> new_head < head s2
                           then s2\<lparr>head := new_head\<rparr> else s2))))"

subsection \<open>\<open>seq_cp\<close>\<close>

definition seq_cp_recurrent ::
  "llama_kv_cache \<Rightarrow> llama_seq_id \<Rightarrow> llama_seq_id \<Rightarrow> error + llama_kv_cache" where
  "seq_cp_recurrent s seq_id_src seq_id_dst =
     (if u32 seq_id_dst < size_kv s \<and> u32 seq_id_src < size_kv s then
        bind_res (cell_at s seq_id_src) (\<lambda>_.
        bind_res (cell_at s seq_id_dst) (\<lambda>tail_dst.
        bind_res
          (if tail tail_dst \<ge> 0 then
             bind_res (cell_at s (tail tail_dst)) (\<lambda>cell_dst.
               let s1 = set_cell s (tail tail_dst) (cell_dst\<lparr>seq_id := seq_id cell_dst - {seq_id_dst}\<rparr>);
                   s2 = set_cell s1 seq_id_dst ((cells s1 ! nat seq_id_dst)\<lparr>tail := -1\<rparr>);
                   c2 = cells s2 ! nat (tail tail_dst)
               in if seq_id c2 = {}
                  then Inr ((set_cell s2 (tail tail_dst) (c2\<lparr>pos := -1, delta := -1, src := -1\<rparr>))
                              \<lparr>used := dec32 (used s2)\<rparr>)
                  else Inr s2)
           else Inr s) (\<lambda>s3.
        let tail_src = cells s3 ! nat seq_id_src in
        if tail tail_src \<ge> 0 then
          bind_res (cell_at s3 (tail tail_src)) (\<lambda>cell_src.
            let s4 = set_cell s3 (tail tail_src) (cell_src\<lparr>seq_id := insert seq_id_dst (seq_id cell_src)\<rparr>)
            in Inr (set_cell s4 seq_id_dst ((cells s4 ! nat seq_id_dst)\<lparr>tail := tail tail_src\<rparr>)))
        else Inr s3)))
      else Inr s)"

definition seq_cp_step ::
  "llama_seq_id \<Rightarrow> llama_seq_id \<Rightarrow> llama_pos \<Rightarrow> llama_pos \<Rightarrow> nat \<Rightarrow> llama_kv_cache \<Rightarrow> llama_kv_cache" where
  "seq_cp_step seq_id_src seq_id_dst p0 p1 i s =
     (let c = cells s ! i in
      if has_seq_id c seq_id_src \<and> pos c \<ge> p0 \<and> pos c < p1
      then s\<lparr>cells := (cells s)[i := c\<lparr>seq_id := insert seq_id_dst (seq_id c)\<rparr>]\<rparr>
      else s)"

definition seq_cp ::
  "llama_kv_cache \<Rightarrow> llama_seq_id \<Rightarrow> llama_seq_id \<Rightarrow> llama_pos \<Rightarrow> llama_pos \<Rightarrow> error + llama_kv_cache" where
  "seq_cp s seq_id_src seq_id_dst p0 p1 =
     (if seq_id_src = seq_id_dst then Inr s
      else let p0' = norm_p0 p0; p1' = norm_p1 p1 in
        if recurrent s then seq_cp_recurrent s seq_id_src seq_id_dst
        else Inr (fold (seq_cp_step seq_id_src seq_id_dst p0' p1') [0..<size_kv s] (s\<lparr>head := 0\<rparr>)))"

subsection \<open>\<open>seq_keep\<close>\<close>

definition seq_keep_step :: "llama_seq_id \<Rightarrow> nat \<Rightarrow> llama_kv_cache \<times> nat \<Rightarrow> llama_kv_cache \<times> nat" where
  "seq_keep_step sid i = (\<lambda>(s, new_head).
     let s1 = (if recurrent s \<and> i32 (int i) \<noteq> sid
               then s\<lparr>cells := (cells s)[i := (cells s ! i)\<lparr>tail := -1\<rparr>]\<rparr> else s);
         c = cells s1 ! i
     in if \<not> has_seq_id c sid then
          (s1\<lparr>used := (if pos c \<ge> 0 then dec32 (used s1) else used s1),
              cells := (cells s1)[i := c\<lparr>pos := -1, src := -1, seq_id := {}\<rparr>]\<rparr>,
           if new_head = size_kv s then i else new_head)
        else (s1\<lparr>cells := (cells s1)[i := c\<lparr>seq_id := {sid}\<rparr>]\<rparr>, new_head))"

definition seq_keep :: "llama_kv_cache \<Rightarrow> llama_seq_id \<Rightarrow> llama_kv_cache" where
  "seq_keep s sid =
     (let (s', new_head) = fold (seq_keep_step sid) [0..<size_kv s] (s, size_kv s)
      in if new_head \<noteq> size_kv s' \<and> new_head < head s' then s'\<lparr>head := new_head\<rparr> else s')"

subsection \<open>\<open>seq_add\<close>\<close>

definition seq_add_step ::
  "llama_seq_id \<Rightarrow> llama_pos \<Rightarrow> llama_pos \<Rightarrow> llama_pos \<Rightarrow> nat \<Rightarrow>
   llama_kv_cache \<times> nat \<Rightarrow> error + llama_kv_cache \<times> nat" where
  \<comment> \<open>one iteration of the loop of the non-recurrent branch, on the cache and \<open>new_head\<close>;
      \<open>pos += delta\<close> and \<open>delta += delta\<close> are signed 32-bit additions\<close>
  "seq_add_step sid p0 p1 d i = (\<lambda>(s, new_head).
     let c = cells s ! i in
     if has_seq_id c sid \<and> pos c \<ge> p0 \<and> pos c < p1 then
       bind_res (i32_result (pos c + d)) (\<lambda>p.
       bind_res (i32_result (delta c + d)) (\<lambda>dl.
         let c1 = c\<lparr>pos := p, delta := dl\<rparr>;
             s1 = s\<lparr>has_shift := True\<rparr>
         in if pos c1 < 0 then
              Inr (s1\<lparr>used := (if \<not> is_empty c1 then dec32 (used s1) else used s1),
                      cells := (cells s1)[i := c1\<lparr>pos := -1, seq_id := {}\<rparr>]\<rparr>,
                   if new_head = size_kv s then i else new_head)
            else Inr (s1\<lparr>cells := (cells s1)[i := c1]\<rparr>, new_head)))
     else Inr (s, new_head))"

definition seq_add_recurrent ::
  "llama_kv_cache \<Rightarrow> llama_seq_id \<Rightarrow> llama_pos \<Rightarrow> llama_pos \<Rightarrow> llama_pos \<Rightarrow>
   error + llama_kv_cache" where
  "seq_add_recurrent s sid p0 p1 d =
     (if 0 \<le> sid \<and> sid < int (size_kv s) then
        bind_res (cell_at s sid) (\<lambda>seq.
          let tail_id = tail seq in
          if tail_id \<ge> 0 then
            bind_res (cell_at s tail_id) (\<lambda>cell.
              if has_seq_id cell sid \<and> p0 \<le> pos cell \<and> pos cell < p1
              then bind_res (i32_result (pos cell + d)) (\<lambda>p.
                     Inr (set_cell s tail_id (cell\<lparr>pos := p\<rparr>)))
              else Inr s)
          else Inr s)
      else Inr s)"

definition seq_add ::
  "llama_kv_cache \<Rightarrow> llama_seq_id \<Rightarrow> llama_pos \<Rightarrow> llama_pos \<Rightarrow> llama_pos \<Rightarrow>
   error + llama_kv_cache" where
  "seq_add s sid p0 p1 d =
     (if d = 0 then Inr s
      else let p0' = norm_p0 p0; p1' = norm_p1 p1 in
        if p0' = p1' then Inr s
        else if recurrent s then seq_add_recurrent s sid p0' p1' d
        else bind_res (fold_res (seq_add_step sid p0' p1' d) [0..<size_kv s] (s, size_kv s))
               (\<lambda>(s', new_head). Inr (s'\<lparr>head := (if new_head \<noteq> size_kv s then new_head else 0)\<rparr>)))"

subsection \<open>\<open>seq_div\<close>\<close>

definition seq_div_recurrent ::
  "llama_kv_cache \<Rightarrow> llama_seq_id \<Rightarrow> llama_pos \<Rightarrow> llama_pos \<Rightarrow> int \<Rightarrow>
   error + llama_kv_cache" where
  "seq_div_recurrent s sid p0 p1 d =
     (if 0 \<le> sid \<and> sid < int (size_kv s) then
        bind_res (cell_at s sid) (\<lambda>seq.
          let tail_id = tail seq in
          if tail_id \<ge> 0 then
            bind_res (cell_at s tail_id) (\<lambda>cell.
              if has_seq_id cell sid \<and> p0 \<le> pos cell \<and> pos cell < p1
              then (if d = 0 then Inl Div_By_Zero
                    else bind_res (i32_result (cdiv (pos cell) d)) (\<lambda>p.
                           Inr (set_cell s tail_id (cell\<lparr>pos := p\<rparr>))))
              else Inr s)
          else Inr s)
      else Inr s)"

definition seq_div_step ::
  "llama_seq_id \<Rightarrow> llama_pos \<Rightarrow> llama_pos \<Rightarrow> int \<Rightarrow> nat \<Rightarrow> llama_kv_cache \<Rightarrow> error + llama_kv_cache" where
  \<comment> \<open>one iteration of the loop of the non-recurrent branch; \<open>pos /= d\<close>, \<open>pos - p_old\<close> and
      \<open>delta += ...\<close> are signed 32-bit operations\<close>
  "seq_div_step sid p0 p1 d i s =
     (let c = cells s ! i in
      if has_seq_id c sid \<and> pos c \<ge> p0 \<and> pos c < p1 then
        (let s1 = s\<lparr>has_shift := True\<rparr>;
             p_old = pos c
         in if d = 0 then Inl Div_By_Zero
            else bind_res (i32_result (cdiv (pos c) d)) (\<lambda>p.
                 let c1 = c\<lparr>pos := p\<rparr> in
                 bind_res (i32_result (pos c1 - p_old)) (\<lambda>diff.
                 bind_res (i32_result (delta c1 + diff)) (\<lambda>dl.
                   let c2 = c1\<lparr>delta := dl\<rparr>
                   in Inr (s1\<lparr>cells := (cells s1)[i := c2]\<rparr>)))))
      else Inr s)"

definition seq_div ::
  "llama_kv_cache \<Rightarrow> llama_seq_id \<Rightarrow> llama_pos \<Rightarrow> llama_pos \<Rightarrow> int \<Rightarrow> error + llama_kv_cache" where
  "seq_div s sid p0 p1 d =
     (if d = 1 then Inr s
      else let p0' = norm_p0 p0; p1' = norm_p1 p1 in
        if p0' = p1' then Inr s
        else if recurrent s then seq_div_recurrent s sid p0' p1' d
        else fold_res (seq_div_step sid p0' p1' d) [0..<size_kv s] s)"

subsection \<open>\<open>seq_pos_max\<close> and \<open>defrag\<close>\<close>

definition seq_pos_max :: "llama_kv_cache \<Rightarrow> llama_seq_id \<Rightarrow> llama_pos" where
  "seq_pos_max s sid =
     fold (\<lambda>i result. if has_seq_id (cells s ! i) sid then max result (pos (cells s ! i)) else result)
       [0..<size_kv s] 0"

definition defrag :: "llama_kv_cache \<Rightarrow> llama_kv_cache" where
  "defrag s = (if \<not> recurrent s then s\<lparr>do_defrag := True\<rparr> else s)"

section \<open>Slot allocation: \<open>find_slot\<close>\<close>

text \<open>
  Modelled from the spec: \<open>llama_ubatch\<close> (\<open>llama-batch.h\<close>) and
  \<open>llama_kv_cache_slot_info\<close> (\<open>llama-kv-cache.h\<close>) are not among the sources. Section 6 of
  the specification gives the micro-batch as \<open>n_tokens\<close>, \<open>n_seqs\<close>, \<open>n_seq_tokens\<close>, the
  flag \<open>equal_seqs\<close> and the arrays \<open>pos\<close>, \<open>n_seq_id\<close> and \<open>seq_id\<close> (here \<open>ub_pos\<close>,
  \<open>n_seq_id\<close>, \<open>ub_seq_id\<close>; an array is a list, and a read past its end is
  \<open>Out_Of_Bounds\<close>), and the slot descriptor as \<open>SlotInfo{ok, begin, end}\<close>, with
  \<open>ok = false\<close> on failure.
\<close>

record llama_ubatch =
  equal_seqs :: bool
  n_tokens :: nat
  n_seq_tokens :: nat
  n_seqs :: nat
  ub_pos :: "llama_pos list"
  n_seq_id :: "int list"
  ub_seq_id :: "llama_seq_id list list"

record slot_info =
  ok :: bool
  slot_begin :: nat
  slot_end :: nat

definition slot_info_failed :: slot_info where
  "slot_info_failed = \<lparr>ok = False, slot_begin = 0, slot_end = 0\<rparr>"

definition slot_info_of_bool :: "bool \<Rightarrow> slot_info" where
  \<comment> \<open>the constructor taking the success flag only\<close>
  "slot_info_of_bool b = \<lparr>ok = b, slot_begin = 0, slot_end = 0\<rparr>"

definition slot_info_range :: "nat \<Rightarrow> nat \<Rightarrow> slot_info" where
  \<comment> \<open>the constructor taking the boundaries\<close>
  "slot_info_range b e = \<lparr>ok = True, slot_begin = b, slot_end = e\<rparr>"

definition arr_at :: "'a list \<Rightarrow> nat \<Rightarrow> error + 'a" where
  "arr_at xs i = (if i < length xs then Inr (xs ! i) else Inl Out_Of_Bounds)"

definition seq_id_at :: "llama_ubatch \<Rightarrow> nat \<Rightarrow> nat \<Rightarrow> error + llama_seq_id" where
  \<comment> \<open>\<open>ubatch.seq_id[s][j]\<close>\<close>
  "seq_id_at ub s j = bind_res (arr_at (ub_seq_id ub) s) (\<lambda>ids. arr_at ids j)"

subsection \<open>The non-recurrent branch\<close>

text \<open>
  The \<open>while (true)\<close> loop works on the member \<open>head\<close> and the local \<open>n_tested\<close>.
  \<open>scan_step\<close> is one iteration on \<open>(head, n_tested)\<close>: it leaves the loop with
  \<open>(found, head)\<close> (\<open>Inl\<close>: \<open>break\<close> with \<open>found\<close>, or the failing \<open>return\<close>), or goes on to
  the next iteration (\<open>Inr\<close>). \<open>find_slot_scan\<close> is the loop; \<open>None\<close> stands for a loop that
  does not return. The sums \<open>head + n_tokens\<close> and \<open>n_tested + ...\<close> stay below \<open>2^32\<close>
  when \<open>head \<le> size < 2^31\<close>, which the theorems about \<open>find_slot\<close> assume.
\<close>

definition scan_step ::
  "llama_kv_cell list \<Rightarrow> nat \<Rightarrow> nat \<Rightarrow> nat \<times> nat \<Rightarrow> (bool \<times> nat) + (nat \<times> nat)" where
  "scan_step cs sz n_tok = (\<lambda>(h, n_tested).
     if h + n_tok > sz then Inr (0, n_tested + (sz - h))
     else case List.find (\<lambda>i. pos (cs ! (h + i)) \<ge> 0) [0..<n_tok] of
            None \<Rightarrow> Inl (True, h)
          | Some i \<Rightarrow>
              if n_tested + (i + 1) \<ge> sz then Inl (False, h + (i + 1))
              else Inr (h + (i + 1), n_tested + (i + 1)))"

partial_function (option) find_slot_scan ::
  "llama_kv_cell list \<Rightarrow> nat \<Rightarrow> nat \<Rightarrow> nat \<times> nat \<Rightarrow> (bool \<times> nat) option" where
  "find_slot_scan cs sz n_tok st =
     (case scan_step cs sz n_tok st of
        Inl r \<Rightarrow> Some r
      | Inr st' \<Rightarrow> find_slot_scan cs sz n_tok st')"

declare find_slot_scan.simps [code]

definition stamp_token :: "llama_ubatch \<Rightarrow> nat \<Rightarrow> nat \<Rightarrow> llama_kv_cache \<Rightarrow> error + llama_kv_cache" where
  \<comment> \<open>the body of the two outer loops after the search, for group \<open>s\<close> and token \<open>i\<close>\<close>
  "stamp_token ub s i st =
     (let k = s * n_seq_tokens ub + i in
      bind_res (arr_at (ub_pos ub) k) (\<lambda>p.
      bind_res (cell_at st (int (head st + k))) (\<lambda>c.
      bind_res (arr_at (n_seq_id ub) s) (\<lambda>n.
        fold_res (\<lambda>j st'.
            bind_res (seq_id_at ub s j) (\<lambda>q.
              let c' = cells st' ! (head st + k)
              in Inr (set_cell st' (int (head st + k)) (c'\<lparr>seq_id := insert q (seq_id c')\<rparr>))))
          [0..<nat n] (set_cell st (int (head st + k)) (c\<lparr>pos := p\<rparr>))))))"

definition stamp_all :: "llama_ubatch \<Rightarrow> llama_kv_cache \<Rightarrow> error + llama_kv_cache" where
  "stamp_all ub st =
     fold_res (\<lambda>s. fold_res (stamp_token ub s) [0..<n_seq_tokens ub]) [0..<n_seqs ub] st"

definition find_slot_transformer :: "llama_kv_cache \<Rightarrow> llama_ubatch \<Rightarrow> error + slot_info \<times> llama_kv_cache" where
  "find_slot_transformer s ub =
     (if n_tokens ub > size_kv s then Inr (slot_info_failed, s)
      else case find_slot_scan (cells s) (size_kv s) (n_tokens ub) (head s, 0) of
             None \<Rightarrow> Inl Non_Termination
           | Some (found, h) \<Rightarrow>
               if \<not> found then Inr (slot_info_failed, s\<lparr>head := h\<rparr>)
               else bind_res (stamp_all ub (s\<lparr>head := h\<rparr>)) (\<lambda>s'.
                      Inr (slot_info_range (head s') (add32 (head s') (n_tokens ub)),
                           s'\<lparr>used := add32 (used s') (n_tokens ub)\<rparr>)))"

subsection \<open>The recurrent branch\<close>

fun fold_exit :: "('a \<Rightarrow> 's \<Rightarrow> error + bool \<times> 's) \<Rightarrow> 'a list \<Rightarrow> 's \<Rightarrow> error + bool \<times> 's" where
  \<comment> \<open>a loop whose body can return from the function: the flag is \<open>False\<close> after such a return\<close>
  "fold_exit f [] s = Inr (True, s)"
| "fold_exit f (x # xs) s =
     bind_res (f x s) (\<lambda>(go_on, s'). if go_on then fold_exit f xs s' else Inr (False, s'))"

definition check_seq_id :: "llama_ubatch \<Rightarrow> nat \<Rightarrow> nat \<Rightarrow> llama_kv_cache \<Rightarrow> error + bool \<times> llama_kv_cache" where
  \<comment> \<open>the body of the first pair of loops, for group \<open>s\<close> and index \<open>j\<close>\<close>
  "check_seq_id ub s j st =
     bind_res (seq_id_at ub s j) (\<lambda>q.
       if q < 0 \<or> u32 q \<ge> size_kv st then Inr (False, st)
       else if j > 0 then
         bind_res (cell_at st q) (\<lambda>seq.
           if tail seq \<ge> 0 then
             bind_res (cell_at st (tail seq)) (\<lambda>cell.
               let st1 = set_cell st (tail seq) (cell\<lparr>seq_id := seq_id cell - {q}\<rparr>);
                   st2 = set_cell st1 q ((cells st1 ! nat q)\<lparr>tail := -1\<rparr>);
                   c2 = cells st2 ! nat (tail seq)
               in if seq_id c2 = {}
                  then Inr (True, (set_cell st2 (tail seq) (c2\<lparr>pos := -1, src := -1\<rparr>))
                                    \<lparr>used := dec32 (used st2)\<rparr>)
                  else Inr (True, st2))
           else Inr (True, st))
       else Inr (True, st))"

definition check_seq_ids :: "llama_ubatch \<Rightarrow> llama_kv_cache \<Rightarrow> error + bool \<times> llama_kv_cache" where
  \<comment> \<open>\<open>n_seq_id\<close> is read into a \<open>uint32_t\<close> here\<close>
  "check_seq_ids ub st =
     fold_exit (\<lambda>s st'. bind_res (arr_at (n_seq_id ub) s) (\<lambda>n.
                  fold_exit (check_seq_id ub s) [0..<u32 n] st'))
       [0..<n_seqs ub] st"

fun next_empty_loop :: "llama_kv_cache \<Rightarrow> nat \<Rightarrow> nat \<Rightarrow> error + nat" where
  \<comment> \<open>the loop \<open>for (i = 0; i < size; ++i)\<close> that moves \<open>next_empty_cell\<close>; the second argument
      counts the iterations left\<close>
  "next_empty_loop st 0 nx = Inr nx"
| "next_empty_loop st (Suc k) nx =
     (let nx1 = (if nx \<ge> size_kv st then nx - size_kv st else nx) in
      bind_res (cell_at st (int nx1)) (\<lambda>cell.
        if is_empty cell then Inr nx1 else next_empty_loop st k (nx1 + 1)))"

definition find_tail ::
  "llama_ubatch \<Rightarrow> nat \<Rightarrow> llama_kv_cache \<times> nat \<times> int \<times> int \<Rightarrow>
   error + llama_kv_cache \<times> nat \<times> int \<times> int" where
  \<comment> \<open>the body of the loop "find usable cell range", on the cache, \<open>next_empty_cell\<close>, \<open>min\<close> and \<open>max\<close>\<close>
  "find_tail ub s = (\<lambda>(st, nx, mn, mx).
     bind_res (seq_id_at ub s 0) (\<lambda>q.
     bind_res (cell_at st q) (\<lambda>seq_meta.
     bind_res
       (if tail seq_meta \<ge> 0 then
          bind_res (cell_at st (tail seq_meta)) (\<lambda>cell.
            if \<not> has_seq_id cell q then Inl Assert_Failed
            else Inr (card (seq_id cell) = 1))
        else Inr False) (\<lambda>has_cell.
     bind_res
       (if \<not> has_cell then
          bind_res (cell_at st (int nx)) (\<lambda>empty_cell.
            if \<not> is_empty empty_cell then Inl Assert_Failed
            else
              let st3 =
                (if tail seq_meta \<ge> 0 then
                   (let orig_cell = cells st ! nat (tail seq_meta);
                        st1 = set_cell st (int nx) (empty_cell\<lparr>pos := pos orig_cell, src := src orig_cell\<rparr>);
                        oc = cells st1 ! nat (tail seq_meta);
                        st2 = set_cell st1 (tail seq_meta) (oc\<lparr>seq_id := seq_id oc - {q}\<rparr>);
                        ec = cells st2 ! nx
                    in set_cell st2 (int nx) (ec\<lparr>seq_id := insert q (seq_id ec)\<rparr>))
                 else st);
                  st4 = set_cell st3 q ((cells st3 ! nat q)\<lparr>tail := i32 (int nx)\<rparr>)
              in bind_res (if s + 1 < n_seqs ub then next_empty_loop st4 (size_kv st4) (nx + 1) else Inr nx)
                   (\<lambda>nx'. Inr (st4, nx')))
        else Inr (st, nx)) (\<lambda>(st5, nx').
     let t = tail (cells st5 ! nat q)
     in Inr (st5, nx', if mn > t then t else mn, if mx < t then t else mx))))))"

definition set_tails :: "llama_seq_id set \<Rightarrow> int \<Rightarrow> llama_kv_cache \<Rightarrow> error + llama_kv_cache" where
  \<comment> \<open>\<open>for (seq_id : ids) cells[seq_id].tail = t\<close>; a \<open>std::set\<close> is traversed in increasing order\<close>
  "set_tails ids t st =
     fold_res (\<lambda>q st'. bind_res (cell_at st' q) (\<lambda>c. Inr (set_cell st' q (c\<lparr>tail := t\<rparr>))))
       (sorted_list_of_set ids) st"

definition gather :: "llama_ubatch \<Rightarrow> int \<Rightarrow> nat \<Rightarrow> llama_kv_cache \<Rightarrow> error + llama_kv_cache" where
  \<comment> \<open>the body of the loop "gather and re-order"\<close>
  "gather ub mn s st =
     (let dst_id = i32 (int s + mn) in
      bind_res (seq_id_at ub s 0) (\<lambda>q.
      bind_res (cell_at st q) (\<lambda>seq_meta.
        let src_id = tail seq_meta in
        if dst_id \<noteq> src_id then
          bind_res (cell_at st dst_id) (\<lambda>dst_cell.
          bind_res (cell_at st src_id) (\<lambda>src_cell.
            let st1 = set_cell st dst_id
                        (dst_cell\<lparr>pos := pos src_cell, src := src src_cell, seq_id := seq_id src_cell\<rparr>);
                st2 = set_cell st1 src_id
                        (src_cell\<lparr>pos := pos dst_cell, src := src dst_cell, seq_id := seq_id dst_cell\<rparr>)
            in bind_res (set_tails (seq_id dst_cell) src_id st2) (\<lambda>st3.
                 set_tails (seq_id src_cell) dst_id st3)))
        else Inr st)))"

definition update_pos :: "llama_ubatch \<Rightarrow> int \<Rightarrow> nat \<Rightarrow> llama_kv_cache \<Rightarrow> error + llama_kv_cache" where
  \<comment> \<open>the body of the loop "update the pos of the used seqs"; the warning is a log line only\<close>
  "update_pos ub mn s st =
     bind_res (arr_at (ub_pos ub) (u32 (int (n_seq_tokens ub) * int s + int (n_seq_tokens ub) - 1))) (\<lambda>last_pos.
     let cell_id = i32 (int s + mn) in
     bind_res (cell_at st cell_id) (\<lambda>cell.
     bind_res (arr_at (n_seq_id ub) s) (\<lambda>n.
       fold_res (\<lambda>j st'.
           bind_res (seq_id_at ub s j) (\<lambda>q.
             let c = cells st' ! nat cell_id;
                 st1 = set_cell st' cell_id (c\<lparr>seq_id := insert q (seq_id c)\<rparr>)
             in bind_res (cell_at st1 q) (\<lambda>m. Inr (set_cell st1 q (m\<lparr>tail := cell_id\<rparr>)))))
         [0..<nat n] (set_cell st cell_id (cell\<lparr>pos := last_pos, seq_id := {}\<rparr>)))))"

definition find_slot_recurrent :: "llama_kv_cache \<Rightarrow> llama_ubatch \<Rightarrow> error + slot_info \<times> llama_kv_cache" where
  "find_slot_recurrent s ub =
     (if \<not> equal_seqs ub then Inl Assert_Failed
      else
        bind_res (check_seq_ids ub s) (\<lambda>(go_on, s1).
          if \<not> go_on then Inr (slot_info_failed, s1)
          else
            bind_res (next_empty_loop s1 (size_kv s1) (head s1)) (\<lambda>next_empty_cell.
            bind_res (fold_res (find_tail ub) [0..<n_seqs ub]
                        (s1, next_empty_cell, i32 (int (size_kv s1) - 1), 0)) (\<lambda>(s2, _, mn, mx).
            bind_res (fold_res (gather ub mn) [0..<n_seqs ub] s2) (\<lambda>s3.
            bind_res (fold_res (update_pos ub mn) [0..<n_seqs ub] s3) (\<lambda>s4.
            bind_res (i32_result (mx - mn)) (\<lambda>w.
            bind_res (i32_result (w + 1)) (\<lambda>n.
              let s5 = s4\<lparr>head := u32 mn, n_kv := u32 n,
                          used := u32 (int (length (filter (\<lambda>c. \<not> is_empty c) (cells s4))))\<rparr>
              in Inr (slot_info_of_bool (n_kv s5 \<ge> n_seqs ub), s5)))))))))"

definition find_slot :: "llama_kv_cache \<Rightarrow> llama_ubatch \<Rightarrow> error + slot_info \<times> llama_kv_cache" where
  "find_slot s ub = (if recurrent s then find_slot_recurrent s ub else find_slot_transformer s ub)"

section \<open>Sequences of public operations\<close>

datatype operation =
    Find_Slot llama_ubatch
  | Seq_Rm llama_seq_id llama_pos llama_pos
  | Seq_Cp llama_seq_id llama_seq_id llama_pos llama_pos
  | Seq_Keep llama_seq_id
  | Seq_Add llama_seq_id llama_pos llama_pos llama_pos
  | Seq_Div llama_seq_id llama_pos llama_pos int
  | Clear

fun apply_operation :: "operation \<Rightarrow> llama_kv_cache \<Rightarrow> error + llama_kv_cache" where
  \<comment> \<open>the state an operation leaves when it returns\<close>
  "apply_operation (Find_Slot ub) s = bind_res (find_slot s ub) (\<lambda>(_, s'). Inr s')"
| "apply_operation (Seq_Rm sid p0 p1) s = bind_res (seq_rm s sid p0 p1) (\<lambda>(_, s'). Inr s')"
| "apply_operation (Seq_Cp a b p0 p1) s = seq_cp s a b p0 p1"
| "apply_operation (Seq_Keep sid) s = Inr (seq_keep s sid)"
| "apply_operation (Seq_Add sid p0 p1 d) s = seq_add s sid p0 p1 d"
| "apply_operation (Seq_Div sid p0 p1 d) s = seq_div s sid p0 p1 d"
| "apply_operation Clear s = Inr (clear s)"

definition run :: "operation list \<Rightarrow> llama_kv_cache \<Rightarrow> error + llama_kv_cache" where
  "run ops s = fold_res apply_operation ops s"

section \<open>Definitions for the statements\<close>

definition seq_match :: "llama_seq_id \<Rightarrow> llama_pos \<Rightarrow> llama_pos \<Rightarrow> llama_kv_cell \<Rightarrow> bool" where
  "seq_match sid p0 p1 c = (sid \<in> seq_id c \<and> p0 \<le> pos c \<and> pos c < p1)"

definition seq_div_cell :: "llama_seq_id \<Rightarrow> llama_pos \<Rightarrow> llama_pos \<Rightarrow> int \<Rightarrow> llama_kv_cell \<Rightarrow> llama_kv_cell" where
  "seq_div_cell sid p0 p1 d c =
     (if seq_match sid p0 p1 c
      then c\<lparr>pos := cdiv (pos c) d, delta := delta c + (cdiv (pos c) d - pos c)\<rparr>
      else c)"

definition seq_div_ok :: "llama_seq_id \<Rightarrow> llama_pos \<Rightarrow> llama_pos \<Rightarrow> int \<Rightarrow> llama_kv_cell \<Rightarrow> bool" where
  \<comment> \<open>dividing the position of the cell by \<open>d\<close> and updating \<open>delta\<close> is defined: the divisor is not
      zero and the quotient, the difference and the new \<open>delta\<close> are values of \<open>int32_t\<close>\<close>
  "seq_div_ok sid p0 p1 d c =
     (seq_match sid p0 p1 c \<longrightarrow>
        d \<noteq> 0 \<and> in_i32 (cdiv (pos c) d) \<and> in_i32 (cdiv (pos c) d - pos c) \<and>
        in_i32 (delta c + (cdiv (pos c) d - pos c)))"

definition seq_div_error :: "int \<Rightarrow> error" where
  \<comment> \<open>the undefined behaviour \<open>seq_div\<close> runs into when a matching cell is not \<open>seq_div_ok\<close>\<close>
  "seq_div_error d = (if d = 0 then Div_By_Zero else Signed_Overflow)"

definition ex_cache :: llama_kv_cache where
  "ex_cache = \<lparr>has_shift = False, do_defrag = False, recurrent = False,
      head = 0, size_kv = 2, used = 1, n_kv = 0,
      cells = [\<lparr>pos = 6, delta = 0, src = -1, tail = -1, seq_id = {0}\<rparr>, default_cell]\<rparr>"

definition seq_positions :: "llama_kv_cache \<Rightarrow> llama_seq_id \<Rightarrow> llama_pos set" where
  "seq_positions s sid = pos ` {c \<in> set (cells s). has_seq_id c sid}"

definition seq_add_cell :: "llama_seq_id \<Rightarrow> llama_pos \<Rightarrow> llama_pos \<Rightarrow> llama_pos \<Rightarrow> llama_kv_cell \<Rightarrow> llama_kv_cell" where
  "seq_add_cell sid p0 p1 d c =
     (if seq_match sid p0 p1 c then
        (if pos c + d < 0 then c\<lparr>delta := delta c + d, pos := -1, seq_id := {}\<rparr>
         else c\<lparr>pos := pos c + d, delta := delta c + d\<rparr>)
      else c)"

definition seq_add_ok :: "llama_seq_id \<Rightarrow> llama_pos \<Rightarrow> llama_pos \<Rightarrow> llama_pos \<Rightarrow> llama_kv_cell \<Rightarrow> bool" where
  \<comment> \<open>adding \<open>d\<close> to \<open>pos\<close> and \<open>delta\<close> of the cell does not overflow\<close>
  "seq_add_ok sid p0 p1 d c =
     (seq_match sid p0 p1 c \<longrightarrow> in_i32 (pos c + d) \<and> in_i32 (delta c + d))"

definition shift_ok :: "llama_seq_id \<Rightarrow> llama_pos \<Rightarrow> llama_kv_cell \<Rightarrow> bool" where
  \<comment> \<open>\<open>pos\<close> and \<open>delta\<close> of a cell of the sequence are 32-bit values, and stay so when \<open>d\<close> is
      added or subtracted\<close>
  "shift_ok sid d c =
     (sid \<in> seq_id c \<longrightarrow>
        in_i32 (pos c) \<and> in_i32 (delta c) \<and> in_i32 (pos c + d) \<and> in_i32 (delta c + d) \<and>
        in_i32 (pos c - d) \<and> in_i32 (delta c - d))"

definition ub_tok :: "llama_pos \<Rightarrow> llama_ubatch" where
  "ub_tok p = \<lparr>equal_seqs = True, n_tokens = 1, n_seq_tokens = 1, n_seqs = 1,
              ub_pos = [p], n_seq_id = [1], ub_seq_id = [[0]]\<rparr>"

definition cache1 :: "llama_pos \<Rightarrow> llama_kv_cache" where
  \<comment> \<open>a cache of one cell after \<open>find_slot\<close> on one token of sequence \<open>0\<close> at position \<open>p\<close>\<close>
  "cache1 p = \<lparr>has_shift = False, do_defrag = False, recurrent = False, head = 0, size_kv = 1,
               used = 1, n_kv = 0,
               cells = [\<lparr>pos = p, delta = 0, src = -1, tail = -1, seq_id = {0}\<rparr>]\<rparr>"

definition occupied :: "llama_kv_cache \<Rightarrow> nat" where
  \<comment> \<open>the number of cells with \<open>pos \<ge> 0\<close>\<close>
  "occupied s = length (filter (\<lambda>c. 0 \<le> pos c) (cells s))"

definition free_run :: "llama_kv_cell list \<Rightarrow> nat \<Rightarrow> nat \<Rightarrow> nat \<Rightarrow> bool" where
  \<comment> \<open>\<open>n_tok\<close> consecutive cells from \<open>p\<close> on, all inside the pool and all with \<open>pos < 0\<close>\<close>
  "free_run cs sz n_tok p = (p + n_tok \<le> sz \<and> (\<forall>i<n_tok. pos (cs ! (p + i)) < 0))"

fun scan_iter ::
  "llama_kv_cell list \<Rightarrow> nat \<Rightarrow> nat \<Rightarrow> nat \<times> nat \<Rightarrow> nat \<Rightarrow> (bool \<times> nat) + (nat \<times> nat)" where
  \<comment> \<open>the loop after \<open>k\<close> iterations: \<open>(head, n_tested)\<close>, or the result if it has returned\<close>
  "scan_iter cs sz n_tok st 0 = Inr st"
| "scan_iter cs sz n_tok st (Suc k) =
     (case scan_iter cs sz n_tok st k of Inl r \<Rightarrow> Inl r | Inr st' \<Rightarrow> scan_step cs sz n_tok st')"

definition wraps_at :: "llama_kv_cell list \<Rightarrow> nat \<Rightarrow> nat \<Rightarrow> nat \<times> nat \<Rightarrow> nat \<Rightarrow> bool" where
  \<comment> \<open>iteration \<open>k\<close> (counted from \<open>0\<close>) takes the branch \<open>head + n_tokens > size\<close>, which sets \<open>head = 0\<close>\<close>
  "wraps_at cs sz n_tok st k =
     (case scan_iter cs sz n_tok st k of Inl r \<Rightarrow> False | Inr (h, t) \<Rightarrow> h + n_tok > sz)"

definition wrap_count :: "llama_kv_cell list \<Rightarrow> nat \<Rightarrow> nat \<Rightarrow> nat \<times> nat \<Rightarrow> nat \<Rightarrow> nat" where
  \<comment> \<open>the number of wrapping iterations among the first \<open>k\<close>\<close>
  "wrap_count cs sz n_tok st k = length (filter (wraps_at cs sz n_tok st) [0..<k])"

definition first_run :: "llama_kv_cell list \<Rightarrow> nat \<Rightarrow> nat \<Rightarrow> nat \<Rightarrow> nat \<Rightarrow> bool" where
  \<comment> \<open>\<open>p\<close> starts the first free run met when going from \<open>h0\<close> to the end and then from \<open>0\<close>\<close>
  "first_run cs sz n_tok h0 p =
     (free_run cs sz n_tok p \<and>
      (if h0 \<le> p then (\<forall>q. h0 \<le> q \<and> q < p \<longrightarrow> \<not> free_run cs sz n_tok q)
       else (\<forall>q. h0 \<le> q \<or> q < p \<longrightarrow> \<not> free_run cs sz n_tok q)))"

definition phase_a :: "llama_kv_cell list \<Rightarrow> nat \<Rightarrow> nat \<Rightarrow> nat \<Rightarrow> nat \<times> nat \<Rightarrow> bool" where
  "phase_a cs sz n_tok h0 = (\<lambda>(h, t).
     h0 \<le> h \<and> h \<le> sz \<and> t = h - h0 \<and> (\<forall>p. h0 \<le> p \<and> p < h \<longrightarrow> \<not> free_run cs sz n_tok p))"

definition phase_b :: "llama_kv_cell list \<Rightarrow> nat \<Rightarrow> nat \<Rightarrow> nat \<Rightarrow> nat \<times> nat \<Rightarrow> bool" where
  "phase_b cs sz n_tok h0 = (\<lambda>(h, t).
     h \<le> sz \<and> t = sz - h0 + h \<and> (\<forall>p. h0 \<le> p \<or> p < h \<longrightarrow> \<not> free_run cs sz n_tok p))"

definition phase_c :: "llama_kv_cell list \<Rightarrow> nat \<Rightarrow> nat \<Rightarrow> nat \<times> nat \<Rightarrow> bool" where
  "phase_c cs sz n_tok = (\<lambda>(h, t). h = 0 \<and> sz \<le> t \<and> (\<forall>p. \<not> free_run cs sz n_tok p))"

text \<open>What the result of the loop says, depending on the phase of the last iteration.\<close>

definition no_run :: "llama_kv_cell list \<Rightarrow> nat \<Rightarrow> nat \<Rightarrow> bool" where
  "no_run cs sz n_tok = (\<forall>p. \<not> free_run cs sz n_tok p)"

definition trace_inv :: "llama_kv_cell list \<Rightarrow> nat \<Rightarrow> nat \<Rightarrow> nat \<Rightarrow> nat \<Rightarrow> bool" where
  "trace_inv cs sz n_tok h0 k =
     (case scan_iter cs sz n_tok (h0, 0) k of
        Inr st \<Rightarrow>
          (wrap_count cs sz n_tok (h0, 0) k = 0 \<and> phase_a cs sz n_tok h0 st) \<or>
          (wrap_count cs sz n_tok (h0, 0) k = 1 \<and> phase_b cs sz n_tok h0 st) \<or>
          (wrap_count cs sz n_tok (h0, 0) k = 2 \<and> phase_c cs sz n_tok st)
      | Inl (found, h') \<Rightarrow>
          wrap_count cs sz n_tok (h0, 0) k \<le> 2 \<and>
          (found \<longrightarrow> first_run cs sz n_tok h0 h' \<and> wrap_count cs sz n_tok (h0, 0) k \<le> 1) \<and>
          (\<not> found \<longrightarrow> no_run cs sz n_tok \<and> h' \<le> sz))"

text \<open>Termination: a measure that every iteration decreases.\<close>

definition scan_measure :: "nat \<Rightarrow> nat \<Rightarrow> nat \<times> nat \<Rightarrow> nat" where
  "scan_measure sz n_tok = (\<lambda>(h, t). 2 * (sz - t) + (if h + n_tok > sz then 1 else 0))"

definition ubatch_ok :: "llama_ubatch \<Rightarrow> bool" where
  \<comment> \<open>the batch is the one section 6 of the specification describes: \<open>n_tokens = n_seqs * n_seq_tokens\<close>,
      and its arrays hold what the counts announce\<close>
  "ubatch_ok ub =
     (n_tokens ub = n_seqs ub * n_seq_tokens ub \<and>
      n_tokens ub \<le> length (ub_pos ub) \<and>
      n_seqs ub \<le> length (n_seq_id ub) \<and>
      n_seqs ub \<le> length (ub_seq_id ub) \<and>
      (\<forall>s<n_seqs ub. nat (n_seq_id ub ! s) \<le> length (ub_seq_id ub ! s)))"

definition group_ids :: "llama_ubatch \<Rightarrow> nat \<Rightarrow> llama_seq_id set" where
  \<comment> \<open>the sequence ids \<open>seq_id[s][0 .. n_seq_id[s] - 1]\<close> of group \<open>s\<close>\<close>
  "group_ids ub s = set (take (nat (n_seq_id ub ! s)) (ub_seq_id ub ! s))"

definition stamp_cell :: "llama_ubatch \<Rightarrow> nat \<Rightarrow> llama_kv_cell \<Rightarrow> llama_kv_cell" where
  \<comment> \<open>what \<open>find_slot\<close> does to the cell that receives token \<open>k\<close>\<close>
  "stamp_cell ub k c =
     c\<lparr>pos := ub_pos ub ! k, seq_id := seq_id c \<union> group_ids ub (k div n_seq_tokens ub)\<rparr>"

definition upd_range :: "nat \<Rightarrow> (nat \<Rightarrow> 'a \<Rightarrow> 'a) \<Rightarrow> nat \<Rightarrow> 'a list \<Rightarrow> 'a list" where
  \<comment> \<open>the list with \<open>f k\<close> applied to the element at \<open>h + k\<close>, for \<open>k < n\<close>\<close>
  "upd_range h f n xs = take h xs @ map (\<lambda>k. f k (xs ! (h + k))) [0..<n] @ drop (h + n) xs"

definition scan_rule ::
  "llama_kv_cell list \<Rightarrow> nat \<Rightarrow> nat \<Rightarrow> nat \<times> nat \<Rightarrow> (bool \<times> nat) + (nat \<times> nat) \<Rightarrow> bool" where
  \<comment> \<open>what one iteration of the search does with the cursor \<open>h\<close> after \<open>t\<close> tested cells: with fewer
      than \<open>n_tok\<close> cells ahead it moves the cursor to cell \<open>0\<close> and counts the cells skipped; on a free
      run at \<open>h\<close> the search ends there with success; otherwise, with the first occupied cell of
      the window at offset \<open>i\<close>, the cursor and the count advance by \<open>i + 1\<close>, and the search
      fails, leaving the cursor there, once the count has reached \<open>size\<close>\<close>
  "scan_rule cs sz n_tok = (\<lambda>(h, t) r.
     if h + n_tok > sz then r = Inr (0, t + (sz - h))
     else if free_run cs sz n_tok h then r = Inl (True, h)
     else \<exists>i<n_tok. 0 \<le> pos (cs ! (h + i)) \<and> (\<forall>j<i. pos (cs ! (h + j)) < 0) \<and>
            r = (if sz \<le> t + (i + 1) then Inl (False, h + (i + 1))
                 else Inr (h + (i + 1), t + (i + 1))))"

definition ub_toks :: "llama_pos list \<Rightarrow> llama_ubatch" where
  \<comment> \<open>one group of sequence \<open>0\<close> with the given positions\<close>
  "ub_toks ps = \<lparr>equal_seqs = True, n_tokens = length ps, n_seq_tokens = length ps, n_seqs = 1,
                 ub_pos = ps, n_seq_id = [1], ub_seq_id = [[0]]\<rparr>"

definition cell0 :: "llama_pos \<Rightarrow> llama_kv_cell" where
  \<comment> \<open>a cell of sequence \<open>0\<close> at position \<open>p\<close>\<close>
  "cell0 p = \<lparr>pos = p, delta = 0, src = -1, tail = -1, seq_id = {0}\<rparr>"

definition cache3 :: llama_kv_cache where
  \<comment> \<open>a pool of three cells after three calls of \<open>find_slot\<close> with one token each\<close>
  "cache3 = \<lparr>has_shift = False, do_defrag = False, recurrent = False, head = 2, size_kv = 3,
             used = 3, n_kv = 0, cells = [cell0 0, cell0 1, cell0 2]\<rparr>"

definition rcache1 :: llama_kv_cache where
  \<comment> \<open>a recurrent pool of two cells after \<open>find_slot\<close> on one token of sequence \<open>0\<close> at position \<open>0\<close>\<close>
  "rcache1 = \<lparr>has_shift = False, do_defrag = False, recurrent = True, head = 0, size_kv = 2,
              used = 1, n_kv = 1,
              cells = [\<lparr>pos = 0, delta = 0, src = -1, tail = 0, seq_id = {0}\<rparr>, default_cell]\<rparr>"

definition rcache2 :: llama_kv_cache where
  \<comment> \<open>\<open>rcache1\<close> after \<open>seq_rm(-1, -1, -1)\<close>\<close>
  "rcache2 = \<lparr>has_shift = False, do_defrag = False, recurrent = True, head = 0, size_kv = 2,
              used = 0, n_kv = 1,
              cells = [\<lparr>pos = -1, delta = 0, src = -1, tail = 0, seq_id = {}\<rparr>, default_cell]\<rparr>"

definition cnt_inv :: "nat \<Rightarrow> llama_kv_cache \<Rightarrow> bool" where
  \<comment> \<open>a non-recurrent cache of \<open>N\<close> cells whose counter \<open>used\<close> is the number of occupied cells\<close>
  "cnt_inv N s = (\<not> recurrent s \<and> length (cells s) = N \<and> size_kv s = N \<and> used s = occupied s)"

definition op_ok :: "operation \<Rightarrow> bool" where
  \<comment> \<open>the batches are well-formed with positions that are not negative, and the divisors are positive\<close>
  "op_ok x = (case x of
       Find_Slot ub \<Rightarrow> ubatch_ok ub \<and> list_all (\<lambda>p. 0 \<le> p) (take (n_tokens ub) (ub_pos ub))
     | Seq_Div sid p0 p1 d \<Rightarrow> 1 \<le> d
     | _ \<Rightarrow> True)"

definition rcache5 :: llama_kv_cache where
  \<comment> \<open>a recurrent pool of two cells after \<open>find_slot\<close> on one token of sequence \<open>0\<close> at position \<open>5\<close>\<close>
  "rcache5 = \<lparr>has_shift = False, do_defrag = False, recurrent = True, head = 0, size_kv = 2,
              used = 1, n_kv = 1,
              cells = [\<lparr>pos = 5, delta = 0, src = -1, tail = 0, seq_id = {0}\<rparr>, default_cell]\<rparr>"

definition with_aux :: "bool \<Rightarrow> bool \<Rightarrow> nat \<Rightarrow> (nat \<Rightarrow> llama_pos) \<Rightarrow> llama_kv_cache \<Rightarrow> llama_kv_cache" where
  \<comment> \<open>the cache with other values of \<open>has_shift\<close>, \<open>do_defrag\<close>, \<open>n\<close> and of the \<open>delta\<close> of every cell\<close>
  "with_aux b d n f s =
     s\<lparr>has_shift := b, do_defrag := d, n_kv := n,
       cells := map (\<lambda>i. (cells s ! i)\<lparr>delta := f i\<rparr>) [0..<length (cells s)]\<rparr>"

definition core :: "llama_kv_cache \<Rightarrow> llama_kv_cache" where
  \<comment> \<open>what is left of a cache when \<open>has_shift\<close>, \<open>do_defrag\<close>, \<open>n\<close> and every \<open>delta\<close> are forgotten\<close>
  "core s = s\<lparr>has_shift := False, do_defrag := False, n_kv := 0,
              cells := map (\<lambda>c. c\<lparr>delta := 0\<rparr>) (cells s)\<rparr>"

definition stamp_at :: "llama_ubatch \<Rightarrow> nat \<Rightarrow> nat \<Rightarrow> nat \<Rightarrow> llama_kv_cache \<Rightarrow> error + llama_kv_cache" where
  \<comment> \<open>\<open>stamp_token\<close> with the index \<open>k\<close> into the micro-batch and the index \<open>x\<close> of the cell as arguments\<close>
  "stamp_at ub g k x st =
      bind_res (arr_at (ub_pos ub) k) (\<lambda>p.
      bind_res (cell_at st (int x)) (\<lambda>c.
      bind_res (arr_at (n_seq_id ub) g) (\<lambda>n.
        fold_res (\<lambda>j st'.
            bind_res (seq_id_at ub g j) (\<lambda>q.
              let c' = cells st' ! x
              in Inr (set_cell st' (int x) (c'\<lparr>seq_id := insert q (seq_id c')\<rparr>))))
          [0..<nat n] (set_cell st (int x) (c\<lparr>pos := p\<rparr>)))))"

definition blank_cell :: "llama_kv_cell \<Rightarrow> bool" where
  \<comment> \<open>a cell as \<open>clear\<close> leaves it\<close>
  "blank_cell c = (pos c = - 1 \<and> src c = - 1 \<and> tail c = - 1 \<and> seq_id c = {})"

definition blank :: "llama_kv_cache \<Rightarrow> bool" where
  \<comment> \<open>a cache as \<open>clear\<close> leaves it\<close>
  "blank s = (wf_cache s \<and> head s = 0 \<and> used s = 0 \<and> list_all blank_cell (cells s))"

definition shifted1 :: llama_kv_cache where
  \<comment> \<open>a cache of one cell after \<open>find_slot\<close> on one token of sequence \<open>0\<close> at position \<open>0\<close> and
      \<open>seq_add(0, 0, 1, 5)\<close>\<close>
  "shifted1 = \<lparr>has_shift = True, do_defrag = False, recurrent = False, head = 0, size_kv = 1,
               used = 1, n_kv = 0,
               cells = [\<lparr>pos = 5, delta = 5, src = -1, tail = -1, seq_id = {0}\<rparr>]\<rparr>"

definition shifted1_refilled :: llama_kv_cache where
  \<comment> \<open>\<open>shifted1\<close> after \<open>clear\<close> and \<open>find_slot\<close> on one token of sequence \<open>0\<close> at position \<open>7\<close>\<close>
  "shifted1_refilled = \<lparr>has_shift = True, do_defrag = False, recurrent = False, head = 0, size_kv = 1,
               used = 1, n_kv = 0,
               cells = [\<lparr>pos = 7, delta = 5, src = -1, tail = -1, seq_id = {0}\<rparr>]\<rparr>"

section \<open>Proofs\<close>

lemma bind_res_simps [simp]:
  "bind_res (Inr x) f = f x" "bind_res (Inl e) f = Inl e"
  by (simp_all add: bind_res_def)

lemma bind_res_eq_Inr: "bind_res m f = Inr y \<longleftrightarrow> (\<exists>x. m = Inr x \<and> f x = Inr y)"
  by (cases m) simp_all

lemma fold_res_append: "fold_res f (xs @ ys) s = bind_res (fold_res f xs s) (fold_res f ys)"
proof (induction xs arbitrary: s)
  case Nil
  then show ?case by simp
next
  case (Cons x xs)
  then show ?case by (cases "f x s") simp_all
qed

lemma fold_res_snoc: "fold_res f (xs @ [x]) s = bind_res (fold_res f xs s) (f x)"
proof -
  have "fold_res f [x] = f x" by (rule ext) (simp add: bind_res_def split: sum.splits)
  then show ?thesis by (simp add: fold_res_append)
qed

lemma map_take_upd:
  "n < length xs \<Longrightarrow>
   (map f (take n xs) @ drop n xs)[n := f (xs ! n)] = map f (take (Suc n) xs) @ drop (Suc n) xs"
  by (simp add: take_Suc_conv_app_nth list_update_append Cons_nth_drop_Suc[symmetric])

lemma map_take_nth:
  "n < length xs \<Longrightarrow> (map f (take n xs) @ drop n xs) ! n = xs ! n"
  by (simp add: nth_append)

lemma seq_div_step_alt:
  "seq_div_step sid p0 p1 d i s =
     (if seq_match sid p0 p1 (cells s ! i)
      then (if seq_div_ok sid p0 p1 d (cells s ! i)
            then Inr (s\<lparr>has_shift := True, cells := (cells s)[i := seq_div_cell sid p0 p1 d (cells s ! i)]\<rparr>)
            else Inl (seq_div_error d))
      else Inr s)"
  by (simp add: seq_div_step_def seq_div_cell_def seq_div_ok_def seq_div_error_def seq_match_def
        i32_result_def Let_def has_seq_id_def)

lemma seq_div_cell_nomatch: "\<not> seq_match sid p0 p1 c \<Longrightarrow> seq_div_cell sid p0 p1 d c = c"
  by (simp add: seq_div_cell_def)

lemma seq_div_ok_nomatch: "\<not> seq_match sid p0 p1 c \<Longrightarrow> seq_div_ok sid p0 p1 d c"
  by (simp add: seq_div_ok_def)

lemma seq_div_step_Inr:
  assumes "seq_div_step sid p0 p1 d i s = Inr s'"
  shows "s' = s\<lparr>has_shift := has_shift s \<or> seq_match sid p0 p1 (cells s ! i),
                cells := (cells s)[i := seq_div_cell sid p0 p1 d (cells s ! i)]\<rparr>"
proof (cases "seq_match sid p0 p1 (cells s ! i)")
  case True
  then show ?thesis using assms by (simp add: seq_div_step_alt split: if_splits)
next
  case False
  then show ?thesis using assms by (simp add: seq_div_step_alt seq_div_cell_nomatch)
qed

lemma seq_div_step_cases:
  "(\<exists>s'. seq_div_step sid p0 p1 d i s = Inr s' \<and> seq_div_ok sid p0 p1 d (cells s ! i)) \<or>
   (seq_div_step sid p0 p1 d i s = Inl (seq_div_error d) \<and> \<not> seq_div_ok sid p0 p1 d (cells s ! i))"
  by (simp add: seq_div_step_alt seq_div_ok_nomatch)

lemma seq_div_fold_cells:
  "n \<le> length (cells s) \<Longrightarrow> fold_res (seq_div_step sid p0 p1 d) [0..<n] s = Inr s' \<Longrightarrow>
   \<exists>b. s' = s\<lparr>has_shift := b, cells := map (seq_div_cell sid p0 p1 d) (take n (cells s)) @ drop n (cells s)\<rparr>"
proof (induction n arbitrary: s')
  case 0
  then have "s' = s" by simp
  then show ?case by (intro exI[of _ "has_shift s"]) simp
next
  case (Suc n)
  from Suc.prems(2) obtain s1 where s1: "fold_res (seq_div_step sid p0 p1 d) [0..<n] s = Inr s1"
    and st: "seq_div_step sid p0 p1 d n s1 = Inr s'"
    by (auto simp: fold_res_snoc bind_res_eq_Inr)
  from Suc.IH[OF _ s1] Suc.prems(1)
  obtain b where b: "s1 = s\<lparr>has_shift := b, cells := map (seq_div_cell sid p0 p1 d) (take n (cells s)) @ drop n (cells s)\<rparr>"
    by auto
  have n: "n < length (cells s)" using Suc.prems(1) by simp
  show ?case
    unfolding seq_div_step_Inr[OF st] b
    by (intro exI) (simp add: map_take_upd[OF n] map_take_nth[OF n])
qed

lemma seq_div_fold_eq:
  "n \<le> length (cells s) \<Longrightarrow>
   (if \<forall>i<n. seq_div_ok sid p0 p1 d (cells s ! i)
    then \<exists>s'. fold_res (seq_div_step sid p0 p1 d) [0..<n] s = Inr s'
    else fold_res (seq_div_step sid p0 p1 d) [0..<n] s = Inl (seq_div_error d))"
proof (induction n)
  case 0
  show ?case by simp
next
  case (Suc n)
  have n: "n < length (cells s)" using Suc.prems by simp
  show ?case
  proof (cases "\<forall>i<n. seq_div_ok sid p0 p1 d (cells s ! i)")
    case False
    then have "fold_res (seq_div_step sid p0 p1 d) [0..<n] s = Inl (seq_div_error d)"
      using Suc.IH n by simp
    moreover have "\<not> (\<forall>i<Suc n. seq_div_ok sid p0 p1 d (cells s ! i))"
      using False less_Suc_eq by blast
    ultimately show ?thesis by (simp add: fold_res_snoc)
  next
    case True
    then obtain s1 where s1: "fold_res (seq_div_step sid p0 p1 d) [0..<n] s = Inr s1"
      using Suc.IH n by auto
    from seq_div_fold_cells[OF _ s1] n obtain b where
      b: "s1 = s\<lparr>has_shift := b, cells := map (seq_div_cell sid p0 p1 d) (take n (cells s)) @ drop n (cells s)\<rparr>"
      by auto
    have c: "cells s1 ! n = cells s ! n" by (simp add: b map_take_nth[OF n])
    have all: "(\<forall>i<Suc n. seq_div_ok sid p0 p1 d (cells s ! i)) = seq_div_ok sid p0 p1 d (cells s ! n)"
      using True less_Suc_eq by auto
    show ?thesis
      using seq_div_step_cases[of sid p0 p1 d n s1] s1 c all
      by (auto simp: fold_res_snoc)
  qed
qed

lemma seq_div_cell_id: "p0 = p1 \<or> d = 1 \<Longrightarrow> seq_div_cell sid p0 p1 d c = c"
  by (auto simp: seq_div_cell_def seq_match_def cdiv_def sgn_if)

lemma seq_div_cell_frame:
  "seq_id (seq_div_cell sid p0 p1 d c) = seq_id c"
  "src (seq_div_cell sid p0 p1 d c) = src c"
  "tail (seq_div_cell sid p0 p1 d c) = tail c"
  "is_empty (seq_div_cell sid p0 p1 d c) = is_empty c"
  by (simp_all add: seq_div_cell_def is_empty_def)

lemma seq_div_Inr:
  assumes "\<not> recurrent s" "wf_cache s" "seq_div s sid p0 p1 d = Inr s'"
  shows "\<exists>b. s' = s\<lparr>has_shift := b, cells := map (seq_div_cell sid (norm_p0 p0) (norm_p1 p1) d) (cells s)\<rparr>"
proof (cases "d = 1 \<or> norm_p0 p0 = norm_p1 p1")
  case True
  then have "seq_div s sid p0 p1 d = Inr s" by (auto simp: seq_div_def Let_def)
  then have "s' = s" using assms(3) by simp
  moreover have "map (seq_div_cell sid (norm_p0 p0) (norm_p1 p1) d) (cells s) = cells s"
    using True by (intro map_idI) (auto simp: seq_div_cell_id)
  ultimately show ?thesis by (intro exI[of _ "has_shift s"]) simp
next
  case False
  then have "fold_res (seq_div_step sid (norm_p0 p0) (norm_p1 p1) d) [0..<size_kv s] s = Inr s'"
    using assms by (simp add: seq_div_def Let_def)
  from seq_div_fold_cells[OF _ this] assms(2) show ?thesis by (simp add: wf_cache_def)
qed

lemma seq_div_returns:
  assumes "\<not> recurrent s" "wf_cache s"
  shows "if d = 1 \<or> norm_p0 p0 = norm_p1 p1 \<or>
            (\<forall>c \<in> set (cells s). seq_div_ok sid (norm_p0 p0) (norm_p1 p1) d c)
         then \<exists>s'. seq_div s sid p0 p1 d = Inr s'
         else seq_div s sid p0 p1 d = Inl (seq_div_error d)"
proof (cases "d = 1 \<or> norm_p0 p0 = norm_p1 p1")
  case True
  then show ?thesis by (auto simp: seq_div_def Let_def)
next
  case False
  have len: "size_kv s \<le> length (cells s)" using assms(2) by (simp add: wf_cache_def)
  have all: "(\<forall>c \<in> set (cells s). seq_div_ok sid (norm_p0 p0) (norm_p1 p1) d c) =
             (\<forall>i<size_kv s. seq_div_ok sid (norm_p0 p0) (norm_p1 p1) d (cells s ! i))"
    using assms(2) by (simp add: wf_cache_def all_set_conv_all_nth)
  have sd: "seq_div s sid p0 p1 d = fold_res (seq_div_step sid (norm_p0 p0) (norm_p1 p1) d) [0..<size_kv s] s"
    using False assms(1) by (simp add: seq_div_def Let_def)
  show ?thesis
    using seq_div_fold_eq[OF len, of sid "norm_p0 p0" "norm_p1 p1" d] False
    unfolding sd all by (simp split: if_splits)
qed

lemma seq_div_cases:
  assumes "\<not> recurrent s" "wf_cache s" "d \<noteq> 0"
  shows "(\<exists>s'. seq_div s sid p0 p1 d = Inr s') \<or> seq_div s sid p0 p1 d = Inl Signed_Overflow"
  using seq_div_returns[OF assms(1,2), of d p0 p1 sid] assms(3)
  by (simp add: seq_div_error_def split: if_splits)

text \<open>
  Claim C9. In non-recurrent mode \<open>seq_div\<close> returns unless it divides by zero or
  overflows: it returns when \<open>d = 1\<close>, when the normalised range has equal bounds, and
  when for every cell that contains the sequence id with a position in the normalised
  range the divisor is not zero and the quotient, its difference to the old position and
  the new \<open>delta\<close> are 32-bit values; in every other case its behaviour is undefined
  (division by zero for \<open>d = 0\<close>, signed overflow otherwise). Whenever it returns,
  \<open>used\<close>, \<open>head\<close> and \<open>size\<close> are unchanged, no cell's set of sequence ids, \<open>src\<close> or
  \<open>tail\<close> changes, so no cell is emptied or evicted, and the cells are the old ones with
  \<open>pos\<close> and \<open>delta\<close> rewritten in those that contain the sequence id with a position in
  the normalised range.
\<close>

theorem seq_div_frame:
  assumes "\<not> recurrent s" and "wf_cache s"
  shows "(if d = 1 \<or> norm_p0 p0 = norm_p1 p1 \<or>
             (\<forall>c \<in> set (cells s). seq_div_ok sid (norm_p0 p0) (norm_p1 p1) d c)
          then \<exists>s'. seq_div s sid p0 p1 d = Inr s'
          else seq_div s sid p0 p1 d = Inl (if d = 0 then Div_By_Zero else Signed_Overflow)) \<and>
         (\<forall>s'. seq_div s sid p0 p1 d = Inr s' \<longrightarrow>
            used s' = used s \<and> head s' = head s \<and> size_kv s' = size_kv s \<and>
            length (cells s') = length (cells s) \<and>
            map seq_id (cells s') = map seq_id (cells s) \<and>
            map is_empty (cells s') = map is_empty (cells s) \<and>
            map src (cells s') = map src (cells s) \<and>
            map tail (cells s') = map tail (cells s) \<and>
            cells s' = map (seq_div_cell sid (norm_p0 p0) (norm_p1 p1) d) (cells s))"
proof (intro conjI impI allI)
  show "if d = 1 \<or> norm_p0 p0 = norm_p1 p1 \<or>
             (\<forall>c \<in> set (cells s). seq_div_ok sid (norm_p0 p0) (norm_p1 p1) d c)
          then \<exists>s'. seq_div s sid p0 p1 d = Inr s'
          else seq_div s sid p0 p1 d = Inl (if d = 0 then Div_By_Zero else Signed_Overflow)"
    using seq_div_returns[OF assms, of d p0 p1 sid] by (simp add: seq_div_error_def)
next
  fix s' assume a: "seq_div s sid p0 p1 d = Inr s'"
  from seq_div_Inr[OF assms a] obtain b where
    b: "s' = s\<lparr>has_shift := b, cells := map (seq_div_cell sid (norm_p0 p0) (norm_p1 p1) d) (cells s)\<rparr>" ..
  show "used s' = used s" "head s' = head s" "size_kv s' = size_kv s"
    "length (cells s') = length (cells s)"
    "cells s' = map (seq_div_cell sid (norm_p0 p0) (norm_p1 p1) d) (cells s)"
    by (simp_all add: b)
  show "map seq_id (cells s') = map seq_id (cells s)" "map is_empty (cells s') = map is_empty (cells s)"
    "map src (cells s') = map src (cells s)" "map tail (cells s') = map tail (cells s)"
    by (simp_all add: b comp_def seq_div_cell_frame)
qed

lemma upt_2: "[0..<2] = [0, 1]" by (simp add: upt_rec)

lemma ex_cache_div:
  "seq_div ex_cache 0 0 10 (-4) = Inr (ex_cache\<lparr>has_shift := True,
      cells := [\<lparr>pos = -1, delta = -7, src = -1, tail = -1, seq_id = {0}\<rparr>, default_cell]\<rparr>)"
  by (simp add: ex_cache_def seq_div_def seq_div_step_def norm_p0_def norm_p1_def
        default_cell_def has_seq_id_def cdiv_def upt_2 Let_def i32_result_def in_i32_def)

lemma ex_cache_ok: "\<forall>c \<in> set (cells ex_cache). seq_div_ok 0 (norm_p0 0) (norm_p1 10) (-4) c"
  by (simp add: ex_cache_def seq_div_ok_def seq_match_def norm_p0_def norm_p1_def default_cell_def
        cdiv_def in_i32_def)

lemma ex_cache_overflow:
  "seq_div (ex_cache\<lparr>cells := [\<lparr>pos = 6, delta = - 2147483647, src = -1, tail = -1, seq_id = {0}\<rparr>, default_cell]\<rparr>)
      0 0 (-1) 2 = Inl Signed_Overflow"
  by (simp add: ex_cache_def seq_div_def seq_div_step_def norm_p0_def norm_p1_def llama_pos_max_def
        default_cell_def has_seq_id_def cdiv_def upt_2 Let_def i32_result_def in_i32_def)

theorem seq_div_frame_witness:
  "\<not> recurrent ex_cache \<and> wf_cache ex_cache \<and>
   list_all (seq_div_ok 0 (norm_p0 0) (norm_p1 10) (-4)) (cells ex_cache) \<and>
   seq_div ex_cache 0 0 10 (-4) = Inr (ex_cache\<lparr>has_shift := True,
      cells := [\<lparr>pos = -1, delta = -7, src = -1, tail = -1, seq_id = {0}\<rparr>, default_cell]\<rparr>) \<and>
   (\<exists>s'. seq_div ex_cache 0 0 10 (-4) = Inr s' \<and> used s' = used ex_cache \<and> head s' = head ex_cache \<and>
      map seq_id (cells s') = map seq_id (cells ex_cache))"
proof -
  have r: "\<not> recurrent ex_cache" and w: "wf_cache ex_cache"
    by (simp_all add: ex_cache_def wf_cache_def)
  have l: "list_all (seq_div_ok 0 (norm_p0 0) (norm_p1 10) (-4)) (cells ex_cache)"
    using ex_cache_ok by (simp add: list_all_iff)
  from seq_div_frame[OF r w, of "-4" 0 10 0] ex_cache_div l r w show ?thesis by blast
qed

lemma Max_insert_floor:
  assumes "finite A"
  shows "Max (insert r (insert p A)) = max (Max (insert r A)) p"
proof -
  have "insert r (insert p A) = insert p (insert r A)" by blast
  moreover have "Max (insert p (insert r A)) = max p (Max (insert r A))"
    using assms by (intro Max_insert) simp_all
  ultimately show ?thesis by (simp only: max.commute)
qed

lemma seq_pos_max_fold:
  "n \<le> length cs \<Longrightarrow>
   fold (\<lambda>i result. if has_seq_id (cs ! i) sid then max result (pos (cs ! i)) else result) [0..<n] r
   = Max (insert r (pos ` {c \<in> set (take n cs). has_seq_id c sid}))"
proof (induction n)
  case 0
  then show ?case by simp
next
  case (Suc n)
  let ?A = "pos ` {c \<in> set (take n cs). has_seq_id c sid}"
  have fin: "finite ?A" by simp
  have n: "n < length cs" using Suc.prems by simp
  have tk: "set (take (Suc n) cs) = insert (cs ! n) (set (take n cs))"
    using n by (simp add: take_Suc_conv_app_nth)
  have ih: "fold (\<lambda>i result. if has_seq_id (cs ! i) sid then max result (pos (cs ! i)) else result) [0..<n] r
      = Max (insert r ?A)" using Suc by simp
  show ?case
  proof (cases "has_seq_id (cs ! n) sid")
    case True
    have "{c \<in> set (take (Suc n) cs). has_seq_id c sid} = insert (cs ! n) {c \<in> set (take n cs). has_seq_id c sid}"
      unfolding tk using True by blast
    then have "pos ` {c \<in> set (take (Suc n) cs). has_seq_id c sid} = insert (pos (cs ! n)) ?A"
      by simp
    then show ?thesis using True ih Max_insert_floor[OF fin, of r "pos (cs ! n)"] by simp
  next
    case False
    have "{c \<in> set (take (Suc n) cs). has_seq_id c sid} = {c \<in> set (take n cs). has_seq_id c sid}"
      unfolding tk using False by blast
    then show ?thesis using False ih by simp
  qed
qed

lemma seq_pos_max_eq:
  assumes "wf_cache s"
  shows "seq_pos_max s sid = Max (insert 0 (seq_positions s sid))"
proof -
  have "length (cells s) = size_kv s" using assms by (simp add: wf_cache_def)
  then show ?thesis
    using seq_pos_max_fold[of "length (cells s)" "cells s" sid 0]
    by (simp add: seq_pos_max_def seq_positions_def)
qed

lemma seq_add_step_alt:
  "seq_add_step sid p0 p1 d i (s, nh) =
     (if seq_match sid p0 p1 (cells s ! i) then
        (if seq_add_ok sid p0 p1 d (cells s ! i) then
           (if pos (cells s ! i) + d < 0
            then Inr (s\<lparr>has_shift := True, used := dec32 (used s),
                        cells := (cells s)[i := seq_add_cell sid p0 p1 d (cells s ! i)]\<rparr>,
                      if nh = size_kv s then i else nh)
            else Inr (s\<lparr>has_shift := True, cells := (cells s)[i := seq_add_cell sid p0 p1 d (cells s ! i)]\<rparr>, nh))
         else Inl Signed_Overflow)
      else Inr (s, nh))"
  by (simp add: seq_add_step_def seq_add_cell_def seq_add_ok_def seq_match_def i32_result_def
        Let_def has_seq_id_def is_empty_def)

lemma seq_add_cell_nomatch: "\<not> seq_match sid p0 p1 c \<Longrightarrow> seq_add_cell sid p0 p1 d c = c"
  by (simp add: seq_add_cell_def)

lemma seq_add_ok_nomatch: "\<not> seq_match sid p0 p1 c \<Longrightarrow> seq_add_ok sid p0 p1 d c"
  by (simp add: seq_add_ok_def)

lemma seq_add_step_shape:
  assumes "seq_add_ok sid p0 p1 d (cells s ! i)"
  shows "\<exists>b u nh'. seq_add_step sid p0 p1 d i (s, nh) =
     Inr (s\<lparr>has_shift := b, used := u, cells := (cells s)[i := seq_add_cell sid p0 p1 d (cells s ! i)]\<rparr>, nh')"
proof (cases "seq_match sid p0 p1 (cells s ! i)")
  case True
  show ?thesis
  proof (cases "pos (cells s ! i) + d < 0")
    case T: True
    show ?thesis unfolding seq_add_step_alt using True T assms
      by (intro exI[of _ True] exI[of _ "dec32 (used s)"] exI[of _ "if nh = size_kv s then i else nh"]) simp
  next
    case F: False
    show ?thesis unfolding seq_add_step_alt using True F assms
      by (intro exI[of _ True] exI[of _ "used s"] exI[of _ nh]) simp
  qed
next
  case False
  show ?thesis unfolding seq_add_step_alt using False
    by (intro exI[of _ "has_shift s"] exI[of _ "used s"] exI[of _ nh]) (simp add: seq_add_cell_nomatch)
qed

lemma seq_add_step_overflow:
  "\<not> seq_add_ok sid p0 p1 d (cells s ! i) \<Longrightarrow> seq_add_step sid p0 p1 d i (s, nh) = Inl Signed_Overflow"
  using seq_add_ok_nomatch[of sid p0 p1 "cells s ! i" d] by (auto simp: seq_add_step_alt)

lemma seq_add_fold_shape:
  "n \<le> length (cells s) \<Longrightarrow>
   (if \<forall>i<n. seq_add_ok sid p0 p1 d (cells s ! i)
    then \<exists>b u nh'. fold_res (seq_add_step sid p0 p1 d) [0..<n] (s, nh) =
       Inr (s\<lparr>has_shift := b, used := u,
              cells := map (seq_add_cell sid p0 p1 d) (take n (cells s)) @ drop n (cells s)\<rparr>, nh')
    else fold_res (seq_add_step sid p0 p1 d) [0..<n] (s, nh) = Inl Signed_Overflow)"
proof (induction n)
  case 0
  show ?case by (simp, intro exI[of _ "has_shift s"] exI[of _ "used s"]) simp
next
  case (Suc n)
  have n: "n < length (cells s)" using Suc.prems by simp
  show ?case
  proof (cases "\<forall>i<n. seq_add_ok sid p0 p1 d (cells s ! i)")
    case False
    then have "fold_res (seq_add_step sid p0 p1 d) [0..<n] (s, nh) = Inl Signed_Overflow"
      using Suc.IH n by simp
    moreover have "\<not> (\<forall>i<Suc n. seq_add_ok sid p0 p1 d (cells s ! i))"
      using False less_Suc_eq by blast
    ultimately show ?thesis by (simp add: fold_res_snoc)
  next
    case True
    then obtain b u nh' where f: "fold_res (seq_add_step sid p0 p1 d) [0..<n] (s, nh) =
       Inr (s\<lparr>has_shift := b, used := u,
              cells := map (seq_add_cell sid p0 p1 d) (take n (cells s)) @ drop n (cells s)\<rparr>, nh')"
      using Suc.IH n by auto
    let ?s1 = "s\<lparr>has_shift := b, used := u,
        cells := map (seq_add_cell sid p0 p1 d) (take n (cells s)) @ drop n (cells s)\<rparr>"
    have c: "cells ?s1 ! n = cells s ! n" by (simp add: map_take_nth[OF n])
    have all: "(\<forall>i<Suc n. seq_add_ok sid p0 p1 d (cells s ! i)) = seq_add_ok sid p0 p1 d (cells s ! n)"
      using True less_Suc_eq by auto
    show ?thesis
    proof (cases "seq_add_ok sid p0 p1 d (cells s ! n)")
      case ok: True
      then have "seq_add_ok sid p0 p1 d (cells ?s1 ! n)" using c by simp
      from seq_add_step_shape[OF this, of nh']
      obtain b2 u2 nh2 where st: "seq_add_step sid p0 p1 d n (?s1, nh') =
         Inr (?s1\<lparr>has_shift := b2, used := u2, cells := (cells ?s1)[n := seq_add_cell sid p0 p1 d (cells ?s1 ! n)]\<rparr>, nh2)"
        by blast
      show ?thesis unfolding all using ok
        by (simp only: if_True, intro exI[of _ b2] exI[of _ u2] exI[of _ nh2])
           (simp add: fold_res_snoc f st map_take_upd[OF n] map_take_nth[OF n])
    next
      case no: False
      then have "\<not> seq_add_ok sid p0 p1 d (cells ?s1 ! n)" using c by simp
      from seq_add_step_overflow[OF this, of nh'] show ?thesis unfolding all using no
        by (simp add: fold_res_snoc f)
    qed
  qed
qed

lemma seq_add_cell_id: "(d = 0 \<and> 0 \<le> p0) \<or> p0 = p1 \<Longrightarrow> seq_add_cell sid p0 p1 d c = c"
  by (auto simp: seq_add_cell_def seq_match_def)

lemma norm_p0_nonneg: "0 \<le> norm_p0 p" by (simp add: norm_p0_def)

lemma seq_add_returns:
  assumes "\<not> recurrent s" "wf_cache s"
  shows "if d = 0 \<or> norm_p0 p0 = norm_p1 p1 \<or>
            (\<forall>c \<in> set (cells s). seq_add_ok sid (norm_p0 p0) (norm_p1 p1) d c)
         then \<exists>b u h. seq_add s sid p0 p1 d =
           Inr (s\<lparr>has_shift := b, head := h, used := u,
                  cells := map (seq_add_cell sid (norm_p0 p0) (norm_p1 p1) d) (cells s)\<rparr>)
         else seq_add s sid p0 p1 d = Inl Signed_Overflow"
proof (cases "d = 0 \<or> norm_p0 p0 = norm_p1 p1")
  case True
  then have "seq_add s sid p0 p1 d = Inr s" by (auto simp: seq_add_def Let_def)
  moreover have "map (seq_add_cell sid (norm_p0 p0) (norm_p1 p1) d) (cells s) = cells s"
    using True norm_p0_nonneg[of p0] by (intro map_idI) (auto simp: seq_add_cell_id)
  ultimately have "\<exists>b u h. seq_add s sid p0 p1 d =
           Inr (s\<lparr>has_shift := b, head := h, used := u,
                  cells := map (seq_add_cell sid (norm_p0 p0) (norm_p1 p1) d) (cells s)\<rparr>)"
    by (intro exI[of _ "has_shift s"] exI[of _ "used s"] exI[of _ "head s"]) simp
  moreover have "d = 0 \<or> norm_p0 p0 = norm_p1 p1 \<or>
            (\<forall>c \<in> set (cells s). seq_add_ok sid (norm_p0 p0) (norm_p1 p1) d c)"
    using True by blast
  ultimately show ?thesis by (simp only: if_True)
next
  case False
  have len: "size_kv s \<le> length (cells s)" using assms(2) by (simp add: wf_cache_def)
  have all: "(\<forall>c \<in> set (cells s). seq_add_ok sid (norm_p0 p0) (norm_p1 p1) d c) =
             (\<forall>i<size_kv s. seq_add_ok sid (norm_p0 p0) (norm_p1 p1) d (cells s ! i))"
    using assms(2) by (simp add: wf_cache_def all_set_conv_all_nth)
  have tk: "take (size_kv s) (cells s) = cells s" "drop (size_kv s) (cells s) = []"
    using assms(2) by (simp_all add: wf_cache_def)
  show ?thesis
  proof (cases "\<forall>i<size_kv s. seq_add_ok sid (norm_p0 p0) (norm_p1 p1) d (cells s ! i)")
    case ok: True
    from seq_add_fold_shape[OF len, of sid "norm_p0 p0" "norm_p1 p1" d "size_kv s"] ok
    obtain b u nh' where f: "fold_res (seq_add_step sid (norm_p0 p0) (norm_p1 p1) d) [0..<size_kv s] (s, size_kv s) =
       Inr (s\<lparr>has_shift := b, used := u,
          cells := map (seq_add_cell sid (norm_p0 p0) (norm_p1 p1) d) (take (size_kv s) (cells s)) @ drop (size_kv s) (cells s)\<rparr>, nh')"
      by auto
    have "\<exists>b u h. seq_add s sid p0 p1 d =
           Inr (s\<lparr>has_shift := b, head := h, used := u,
                  cells := map (seq_add_cell sid (norm_p0 p0) (norm_p1 p1) d) (cells s)\<rparr>)"
      using False assms(1)
      by (intro exI[of _ b] exI[of _ u] exI[of _ "if nh' \<noteq> size_kv s then nh' else 0"])
         (simp add: seq_add_def Let_def f tk)
    then show ?thesis unfolding all using ok by simp
  next
    case no: False
    from seq_add_fold_shape[OF len, of sid "norm_p0 p0" "norm_p1 p1" d "size_kv s"] no
    have "fold_res (seq_add_step sid (norm_p0 p0) (norm_p1 p1) d) [0..<size_kv s] (s, size_kv s) = Inl Signed_Overflow"
      by simp
    then have "seq_add s sid p0 p1 d = Inl Signed_Overflow"
      using False assms(1) by (simp add: seq_add_def Let_def)
    then show ?thesis unfolding all using no False by simp
  qed
qed

lemma shift_ok_first: "shift_ok sid d c \<Longrightarrow> seq_add_ok sid a0 a1 d c"
  by (simp add: shift_ok_def seq_add_ok_def seq_match_def)

lemma shift_ok_second: "shift_ok sid d c \<Longrightarrow> seq_add_ok sid b0 b1 (- d) (seq_add_cell sid a0 a1 d c)"
  by (auto simp: shift_ok_def seq_add_ok_def seq_add_cell_def seq_match_def)

lemma seq_add_cell_evicted:
  assumes "sid \<in> seq_id c" "p0 \<le> pos c" "pos c < p1" "0 \<le> pos c" "pos c + d < 0"
  shows "pos (seq_add_cell sid (norm_p0 p0) (norm_p1 p1) d c) = - 1"
    "seq_id (seq_add_cell sid (norm_p0 p0) (norm_p1 p1) d c) = {}"
    "seq_add_cell sid b0 b1 e (seq_add_cell sid (norm_p0 p0) (norm_p1 p1) d c)
       = seq_add_cell sid (norm_p0 p0) (norm_p1 p1) d c"
  using assms
  by (auto simp: seq_add_cell_def seq_match_def norm_p0_def norm_p1_def llama_pos_max_def)

lemma seq_add_cell_roundtrip:
  assumes "sid \<in> seq_id c" "p0 \<le> pos c" "pos c < p1" "pos c < 0 \<or> 0 \<le> pos c + d"
  shows "pos (seq_add_cell sid (norm_p0 (p0 + d)) (norm_p1 (p1 + d)) (- d)
               (seq_add_cell sid (norm_p0 p0) (norm_p1 p1) d c)) = pos c"
    "delta (seq_add_cell sid (norm_p0 (p0 + d)) (norm_p1 (p1 + d)) (- d)
               (seq_add_cell sid (norm_p0 p0) (norm_p1 p1) d c)) = delta c"
    "seq_id (seq_add_cell sid (norm_p0 (p0 + d)) (norm_p1 (p1 + d)) (- d)
               (seq_add_cell sid (norm_p0 p0) (norm_p1 p1) d c)) = seq_id c"
  using assms
  by (auto simp: seq_add_cell_def seq_match_def norm_p0_def norm_p1_def llama_pos_max_def split: if_splits)

text \<open>
  Claim C6, amended. In non-recurrent mode, let \<open>pos\<close> and \<open>delta\<close> of every cell that
  contains \<open>s\<close> be 32-bit values that stay so when \<open>d\<close> is added or subtracted (an addition
  that overflows is undefined behaviour). Then \<open>seq_add(s, p0, p1, d)\<close> and
  \<open>seq_add(s, p0 + d, p1 + d, -d)\<close> both return, and for every cell that contained \<open>s\<close>
  with a position in \<open>[p0, p1)\<close>: if its position was not negative and the shifted
  position \<open>pos + d\<close> is negative, the first call evicts it (\<open>pos = -1\<close>, empty set of
  sequence ids) and the second call leaves it so, hence its \<open>pos\<close> is not restored;
  otherwise the two calls restore its \<open>pos\<close>, its \<open>delta\<close> and its set of sequence ids.
\<close>

theorem seq_add_roundtrip:
  assumes "\<not> recurrent s" and "wf_cache s"
    and "\<forall>c \<in> set (cells s). shift_ok sid d c"
  shows "\<exists>s1 s2. seq_add s sid p0 p1 d = Inr s1 \<and> seq_add s1 sid (p0 + d) (p1 + d) (- d) = Inr s2 \<and>
           (\<forall>i < size_kv s.
              has_seq_id (cells s ! i) sid \<and> p0 \<le> pos (cells s ! i) \<and> pos (cells s ! i) < p1 \<longrightarrow>
                (if 0 \<le> pos (cells s ! i) \<and> pos (cells s ! i) + d < 0
                 then pos (cells s1 ! i) = - 1 \<and> seq_id (cells s1 ! i) = {} \<and>
                      pos (cells s2 ! i) = - 1 \<and> seq_id (cells s2 ! i) = {}
                 else pos (cells s2 ! i) = pos (cells s ! i) \<and>
                      delta (cells s2 ! i) = delta (cells s ! i) \<and>
                      seq_id (cells s2 ! i) = seq_id (cells s ! i)))"
proof -
  let ?f1 = "seq_add_cell sid (norm_p0 p0) (norm_p1 p1) d"
  let ?f2 = "seq_add_cell sid (norm_p0 (p0 + d)) (norm_p1 (p1 + d)) (- d)"
  have ok1: "\<forall>c \<in> set (cells s). seq_add_ok sid (norm_p0 p0) (norm_p1 p1) d c"
    using assms(3) shift_ok_first by blast
  obtain b u h where s1: "seq_add s sid p0 p1 d =
           Inr (s\<lparr>has_shift := b, head := h, used := u, cells := map ?f1 (cells s)\<rparr>)"
    using seq_add_returns[OF assms(1,2), of d p0 p1 sid] ok1 by auto
  let ?s1 = "s\<lparr>has_shift := b, head := h, used := u, cells := map ?f1 (cells s)\<rparr>"
  have r1: "\<not> recurrent ?s1" and w1: "wf_cache ?s1" using assms by (simp_all add: wf_cache_def)
  have ok2: "\<forall>c \<in> set (cells ?s1). seq_add_ok sid (norm_p0 (p0 + d)) (norm_p1 (p1 + d)) (- d) c"
    using assms(3) shift_ok_second by auto
  obtain b' u' h' where s2: "seq_add ?s1 sid (p0 + d) (p1 + d) (- d) =
           Inr (?s1\<lparr>has_shift := b', head := h', used := u', cells := map ?f2 (cells ?s1)\<rparr>)"
    using seq_add_returns[OF r1 w1, of "- d" "p0 + d" "p1 + d" sid] ok2 by auto
  let ?s2 = "?s1\<lparr>has_shift := b', head := h', used := u', cells := map ?f2 (cells ?s1)\<rparr>"
  have "if 0 \<le> pos (cells s ! i) \<and> pos (cells s ! i) + d < 0
        then pos (cells ?s1 ! i) = - 1 \<and> seq_id (cells ?s1 ! i) = {} \<and>
             pos (cells ?s2 ! i) = - 1 \<and> seq_id (cells ?s2 ! i) = {}
        else pos (cells ?s2 ! i) = pos (cells s ! i) \<and>
             delta (cells ?s2 ! i) = delta (cells s ! i) \<and>
             seq_id (cells ?s2 ! i) = seq_id (cells s ! i)"
    if "i < size_kv s" and m: "has_seq_id (cells s ! i) sid \<and> p0 \<le> pos (cells s ! i) \<and> pos (cells s ! i) < p1" for i
  proof -
    have i: "i < length (cells s)" using that(1) assms(2) by (simp add: wf_cache_def)
    have c: "sid \<in> seq_id (cells s ! i)" "p0 \<le> pos (cells s ! i)" "pos (cells s ! i) < p1"
      using m by (simp_all add: has_seq_id_def)
    show ?thesis
    proof (cases "0 \<le> pos (cells s ! i) \<and> pos (cells s ! i) + d < 0")
      case True
      then have e: "0 \<le> pos (cells s ! i)" "pos (cells s ! i) + d < 0" by simp_all
      show ?thesis using True i seq_add_cell_evicted[OF c e] by simp
    next
      case False
      then have e: "pos (cells s ! i) < 0 \<or> 0 \<le> pos (cells s ! i) + d" by auto
      show ?thesis using False i seq_add_cell_roundtrip[OF c e] by simp
    qed
  qed
  then show ?thesis using s1 s2 by blast
qed

lemma cell_at_Inr: "0 \<le> i \<Longrightarrow> nat i < length (cells s) \<Longrightarrow> cell_at s i = Inr (cells s ! nat i)"
  by (simp add: cell_at_def)

lemma seq_rm_recurrent_total:
  assumes "wf_cache s" and "\<forall>c \<in> set (cells s). tail c < int (size_kv s)"
  shows "\<exists>r. seq_rm_recurrent s sid p0 p1 = Inr r \<and>
     (r = None \<longleftrightarrow>
        (int (size_kv s) \<le> sid \<or>
         (0 \<le> sid \<and> sid < int (size_kv s) \<and> 0 \<le> tail (cells s ! nat sid) \<and>
            ((0 < p0 \<and> p0 \<le> pos (cells s ! nat (tail (cells s ! nat sid)))) \<or>
             (0 < p1 \<and> p1 \<le> pos (cells s ! nat (tail (cells s ! nat sid)))))) \<or>
         (sid < 0 \<and> p0 \<noteq> p1 \<and> (p0 \<noteq> 0 \<or> p1 \<noteq> llama_pos_max))))"
proof (cases "0 \<le> sid \<and> sid < int (size_kv s)")
  case True
  have len: "length (cells s) = size_kv s" using assms(1) by (simp add: wf_cache_def)
  have i: "nat sid < length (cells s)" using True len by auto
  have a: "cell_at s sid = Inr (cells s ! nat sid)" using True i by (simp add: cell_at_Inr)
  have "cells s ! nat sid \<in> set (cells s)" using i by simp
  then have t: "tail (cells s ! nat sid) < int (size_kv s)" using assms(2) by blast
  show ?thesis
  proof (cases "0 \<le> tail (cells s ! nat sid)")
    case False
    then show ?thesis using True a by (simp add: seq_rm_recurrent_def Let_def)
  next
    case T: True
    have "nat (tail (cells s ! nat sid)) < length (cells s)" using t T len by auto
    then have b: "cell_at s (tail (cells s ! nat sid)) = Inr (cells s ! nat (tail (cells s ! nat sid)))"
      using T by (simp add: cell_at_Inr)
    show ?thesis using True T a b by (simp add: seq_rm_recurrent_def Let_def)
  qed
next
  case False
  then show ?thesis by (auto simp: seq_rm_recurrent_def)
qed

text \<open>
  Claim C5, amended. \<open>seq_rm\<close> returns a boolean. It is \<open>false\<close> iff the cache is recurrent and
  the sequence id is at least \<open>size\<close>, or it is in \<open>[0, size)\<close>, has a tail cell, and that
  cell's position \<open>pos\<close> satisfies \<open>0 < p0 \<le> pos\<close> or \<open>0 < p1 \<le> pos\<close> for the normalised
  bounds, or it is negative and the normalised bounds are different and are not \<open>0\<close> and
  the largest position (the range of everything); so a range with \<open>p0 > p1\<close>, which
  contains no position, is refused as well. In non-recurrent mode the result is always
  \<open>true\<close>. The cache is one \<open>init\<close> can produce: \<open>cells\<close> has \<open>size\<close> elements, and in
  recurrent mode every \<open>tail\<close> is below \<open>size\<close>.
\<close>

theorem seq_rm_result:
  assumes "wf_cache s" and "recurrent s \<longrightarrow> (\<forall>c \<in> set (cells s). tail c < int (size_kv s))"
  shows "\<exists>b s'. seq_rm s sid p0 p1 = Inr (b, s') \<and>
     (\<not> b \<longleftrightarrow>
        recurrent s \<and>
        (int (size_kv s) \<le> sid \<or>
         (0 \<le> sid \<and> sid < int (size_kv s) \<and> 0 \<le> tail (cells s ! nat sid) \<and>
            ((0 < norm_p0 p0 \<and> norm_p0 p0 \<le> pos (cells s ! nat (tail (cells s ! nat sid)))) \<or>
             (0 < norm_p1 p1 \<and> norm_p1 p1 \<le> pos (cells s ! nat (tail (cells s ! nat sid)))))) \<or>
         (sid < 0 \<and> norm_p0 p0 \<noteq> norm_p1 p1 \<and> (norm_p0 p0 \<noteq> 0 \<or> norm_p1 p1 \<noteq> llama_pos_max)))) \<and>
     (\<not> recurrent s \<longrightarrow> b)"
proof (cases "recurrent s")
  case False
  obtain s2 nh where "fold (seq_rm_step sid (norm_p0 p0) (norm_p1 p1)) [0..<size_kv s] (s, size_kv s) = (s2, nh)"
    by (cases "fold (seq_rm_step sid (norm_p0 p0) (norm_p1 p1)) [0..<size_kv s] (s, size_kv s)")
  then have "seq_rm s sid p0 p1 = Inr (True, if nh \<noteq> size_kv s2 \<and> nh < head s2 then s2\<lparr>head := nh\<rparr> else s2)"
    using False by (simp add: seq_rm_def Let_def)
  then show ?thesis using False by blast
next
  case True
  let ?C = "int (size_kv s) \<le> sid \<or>
         (0 \<le> sid \<and> sid < int (size_kv s) \<and> 0 \<le> tail (cells s ! nat sid) \<and>
            ((0 < norm_p0 p0 \<and> norm_p0 p0 \<le> pos (cells s ! nat (tail (cells s ! nat sid)))) \<or>
             (0 < norm_p1 p1 \<and> norm_p1 p1 \<le> pos (cells s ! nat (tail (cells s ! nat sid)))))) \<or>
         (sid < 0 \<and> norm_p0 p0 \<noteq> norm_p1 p1 \<and> (norm_p0 p0 \<noteq> 0 \<or> norm_p1 p1 \<noteq> llama_pos_max))"
  have tl: "\<forall>c \<in> set (cells s). tail c < int (size_kv s)" using assms(2) True by blast
  from seq_rm_recurrent_total[OF assms(1) tl, of sid "norm_p0 p0" "norm_p1 p1"]
  obtain r where r: "seq_rm_recurrent s sid (norm_p0 p0) (norm_p1 p1) = Inr r" "r = None \<longleftrightarrow> ?C"
    by blast
  show ?thesis
  proof (cases r)
    case None
    then have "seq_rm s sid p0 p1 = Inr (False, s)" using r(1) True by (simp add: seq_rm_def Let_def)
    moreover have ?C using r(2) None by simp
    ultimately show ?thesis using True by blast
  next
    case (Some s1)
    obtain s2 nh where "fold (seq_rm_step sid (norm_p0 p0) (norm_p1 p1)) [0..<size_kv s1] (s1, size_kv s1) = (s2, nh)"
      by (cases "fold (seq_rm_step sid (norm_p0 p0) (norm_p1 p1)) [0..<size_kv s1] (s1, size_kv s1)")
    then have "seq_rm s sid p0 p1 = Inr (True, if nh \<noteq> size_kv s2 \<and> nh < head s2 then s2\<lparr>head := nh\<rparr> else s2)"
      using r(1) Some True by (simp add: seq_rm_def Let_def)
    moreover have "\<not> ?C" using r(2) Some by simp
    ultimately show ?thesis using True by blast
  qed
qed

lemma u32_outside:
  assumes "n \<le> 2147483648" "- 2147483648 \<le> x" "x < 2147483648" "x < 0 \<or> int n \<le> x"
  shows "\<not> u32 x < n"
proof (cases "x < 0")
  case True
  have "x mod 4294967296 = (x + 4294967296) mod 4294967296" by simp
  also have "\<dots> = x + 4294967296" using True assms(2) by (intro mod_pos_pos_trivial) simp_all
  finally show ?thesis using assms by (simp add: u32_def)
next
  case False
  then have "x mod 4294967296 = x" using assms(3) by simp
  then show ?thesis using assms False by (simp add: u32_def)
qed

text \<open>
  Claim C10. In recurrent mode \<open>seq_cp(src, dst, p0, p1)\<close> with \<open>src \<noteq> dst\<close> and one of them
  outside \<open>[0, size)\<close> returns the cache unchanged. The sequence ids are 32-bit signed values
  and \<open>size\<close> is at most \<open>2^31\<close>, so that a negative id converted to \<open>uint32_t\<close> is not below
  \<open>size\<close>.
\<close>

theorem seq_cp_recurrent_noop:
  assumes "recurrent s" and "seq_id_src \<noteq> seq_id_dst"
    and "size_kv s \<le> 2147483648"
    and "- 2147483648 \<le> seq_id_src" and "seq_id_src < 2147483648"
    and "- 2147483648 \<le> seq_id_dst" and "seq_id_dst < 2147483648"
    and "seq_id_src < 0 \<or> int (size_kv s) \<le> seq_id_src \<or> seq_id_dst < 0 \<or> int (size_kv s) \<le> seq_id_dst"
  shows "seq_cp s seq_id_src seq_id_dst p0 p1 = Inr s"
proof -
  have "\<not> u32 seq_id_dst < size_kv s \<or> \<not> u32 seq_id_src < size_kv s"
    using assms(3-8) u32_outside[of "size_kv s" seq_id_src] u32_outside[of "size_kv s" seq_id_dst] by blast
  then have "(u32 seq_id_dst < size_kv s \<and> u32 seq_id_src < size_kv s) = False" by blast
  then have "seq_cp_recurrent s seq_id_src seq_id_dst = Inr s"
    unfolding seq_cp_recurrent_def by (simp only: if_False)
  then show ?thesis using assms(1,2) by (simp add: seq_cp_def Let_def)
qed

lemma upt_1: "[0..<1] = [0]" by (simp add: upt_rec)

lemma find_slot_init1: "find_slot (init False 1) (ub_tok p) = Inr (slot_info_range 0 1, cache1 p)"
  by (simp add: find_slot_def find_slot_transformer_def init_def ub_tok_def cache1_def
        find_slot_scan.simps scan_step_def stamp_all_def stamp_token_def arr_at_def cell_at_def set_cell_def
        seq_id_at_def add32_def default_cell_def upt_1)

lemma run_Nil [simp]: "run [] s = Inr s" by (simp add: run_def)

lemma run_Cons: "run (x # xs) s = bind_res (apply_operation x s) (run xs)"
  by (simp add: run_def bind_res_def fun_eq_iff split: sum.splits)

lemma run_find_slot1: "run (Find_Slot (ub_tok p) # xs) (init False 1) = run xs (cache1 p)"
  by (simp only: run_Cons apply_operation.simps find_slot_init1 bind_res_simps prod.case)

lemma cache1_add_evict:
  "seq_add (cache1 0) 0 0 1 (-1) =
     Inr ((cache1 0)\<lparr>has_shift := True, used := 0,
            cells := [\<lparr>pos = -1, delta = -1, src = -1, tail = -1, seq_id = {}\<rparr>]\<rparr>)"
  by (simp add: seq_add_def seq_add_step_def cache1_def norm_p0_def norm_p1_def has_seq_id_def
        is_empty_def dec32_def upt_1 Let_def i32_result_def in_i32_def)

lemma cache1_add_back:
  "seq_add ((cache1 0)\<lparr>has_shift := True, used := 0,
            cells := [\<lparr>pos = -1, delta = -1, src = -1, tail = -1, seq_id = {}\<rparr>]\<rparr>) 0 (0 + - 1) (1 + - 1) (- (- 1)) =
     Inr ((cache1 0)\<lparr>has_shift := True, used := 0,
            cells := [\<lparr>pos = -1, delta = -1, src = -1, tail = -1, seq_id = {}\<rparr>]\<rparr>)"
  by (simp add: seq_add_def norm_p0_def norm_p1_def Let_def)

text \<open>
  Claim C6 as stated fails for a negative shift: the cell at position \<open>0\<close> is evicted by
  \<open>seq_add(0, 0, 1, -1)\<close>, and \<open>seq_add(0, -1, 0, 1)\<close> does not bring it back.
\<close>

theorem seq_add_roundtrip_counterexample:
  "\<exists>s0 s1 s2. run [Find_Slot (ub_tok 0)] (init False 1) = Inr s0 \<and>
     seq_add s0 0 0 1 (- 1) = Inr s1 \<and> seq_add s1 0 (0 + - 1) (1 + - 1) (- (- 1)) = Inr s2 \<and>
     has_seq_id (cells s0 ! 0) 0 \<and> 0 \<le> pos (cells s0 ! 0) \<and> pos (cells s0 ! 0) < 1 \<and>
     pos (cells s0 ! 0) = 0 \<and> pos (cells s2 ! 0) = - 1"
proof -
  have a: "run [Find_Slot (ub_tok 0)] (init False 1) = Inr (cache1 0)" by (simp only: run_find_slot1 run_Nil)
  have b: "has_seq_id (cells (cache1 0) ! 0) 0 \<and> pos (cells (cache1 0) ! 0) = 0"
    by (simp add: cache1_def has_seq_id_def)
  show ?thesis
    apply (rule exI[of _ "cache1 0"])
    apply (rule exI[of _ "(cache1 0)\<lparr>has_shift := True, used := 0,
            cells := [\<lparr>pos = -1, delta = -1, src = -1, tail = -1, seq_id = {}\<rparr>]\<rparr>"])
    apply (rule exI[of _ "(cache1 0)\<lparr>has_shift := True, used := 0,
            cells := [\<lparr>pos = -1, delta = -1, src = -1, tail = -1, seq_id = {}\<rparr>]\<rparr>"])
    using a b cache1_add_evict cache1_add_back by simp
qed

theorem seq_add_roundtrip_witness:
  "\<not> recurrent (cache1 3) \<and> wf_cache (cache1 3) \<and> list_all (shift_ok 0 (- 3)) (cells (cache1 3)) \<and>
   (\<exists>s1 s2. seq_add (cache1 3) 0 2 5 (- 3) = Inr s1 \<and> seq_add s1 0 (2 + - 3) (5 + - 3) (- (- 3)) = Inr s2 \<and>
      has_seq_id (cells (cache1 3) ! 0) 0 \<and> pos (cells (cache1 3) ! 0) = 3 \<and> pos (cells s2 ! 0) = 3) \<and>
   \<not> recurrent (cache1 0) \<and> wf_cache (cache1 0) \<and> list_all (shift_ok 0 (- 1)) (cells (cache1 0)) \<and>
   (\<exists>s1 s2. seq_add (cache1 0) 0 0 1 (- 1) = Inr s1 \<and> seq_add s1 0 (0 + - 1) (1 + - 1) (- (- 1)) = Inr s2 \<and>
      has_seq_id (cells (cache1 0) ! 0) 0 \<and> pos (cells (cache1 0) ! 0) = 0 \<and>
      pos (cells s1 ! 0) = - 1 \<and> seq_id (cells s1 ! 0) = {} \<and> pos (cells s2 ! 0) = - 1)"
proof -
  have r: "\<not> recurrent (cache1 p)" and w: "wf_cache (cache1 p)" for p
    by (simp_all add: cache1_def wf_cache_def)
  have o3: "\<forall>c \<in> set (cells (cache1 3)). shift_ok 0 (- 3) c"
    and o0: "\<forall>c \<in> set (cells (cache1 0)). shift_ok 0 (- 1) c"
    by (simp_all add: cache1_def shift_ok_def in_i32_def)
  have c3: "has_seq_id (cells (cache1 3) ! 0) 0" "pos (cells (cache1 3) ! 0) = 3" "(0::nat) < size_kv (cache1 3)"
    and c0: "has_seq_id (cells (cache1 0) ! 0) 0" "pos (cells (cache1 0) ! 0) = 0" "(0::nat) < size_kv (cache1 0)"
    by (simp_all add: cache1_def has_seq_id_def)
  from seq_add_roundtrip[OF r w o3, of 2 5] obtain s1 s2 where
    s: "seq_add (cache1 3) 0 2 5 (- 3) = Inr s1" "seq_add s1 0 (2 + - 3) (5 + - 3) (- (- 3)) = Inr s2"
       "\<forall>i<size_kv (cache1 3).
           has_seq_id (cells (cache1 3) ! i) 0 \<and> 2 \<le> pos (cells (cache1 3) ! i) \<and>
           pos (cells (cache1 3) ! i) < 5 \<longrightarrow>
           (if 0 \<le> pos (cells (cache1 3) ! i) \<and> pos (cells (cache1 3) ! i) + - 3 < 0
            then pos (cells s1 ! i) = - 1 \<and> seq_id (cells s1 ! i) = {} \<and>
                 pos (cells s2 ! i) = - 1 \<and> seq_id (cells s2 ! i) = {}
            else pos (cells s2 ! i) = pos (cells (cache1 3) ! i) \<and>
                 delta (cells s2 ! i) = delta (cells (cache1 3) ! i) \<and>
                 seq_id (cells s2 ! i) = seq_id (cells (cache1 3) ! i))"
    by blast
  have a: "pos (cells s2 ! 0) = 3" using s(3) c3 by simp
  from seq_add_roundtrip[OF r w o0, of 0 1] obtain t1 t2 where
    t: "seq_add (cache1 0) 0 0 1 (- 1) = Inr t1" "seq_add t1 0 (0 + - 1) (1 + - 1) (- (- 1)) = Inr t2"
       "\<forall>i<size_kv (cache1 0).
           has_seq_id (cells (cache1 0) ! i) 0 \<and> 0 \<le> pos (cells (cache1 0) ! i) \<and>
           pos (cells (cache1 0) ! i) < 1 \<longrightarrow>
           (if 0 \<le> pos (cells (cache1 0) ! i) \<and> pos (cells (cache1 0) ! i) + - 1 < 0
            then pos (cells t1 ! i) = - 1 \<and> seq_id (cells t1 ! i) = {} \<and>
                 pos (cells t2 ! i) = - 1 \<and> seq_id (cells t2 ! i) = {}
            else pos (cells t2 ! i) = pos (cells (cache1 0) ! i) \<and>
                 delta (cells t2 ! i) = delta (cells (cache1 0) ! i) \<and>
                 seq_id (cells t2 ! i) = seq_id (cells (cache1 0) ! i))"
    by blast
  have b: "pos (cells t1 ! 0) = - 1 \<and> seq_id (cells t1 ! 0) = {} \<and> pos (cells t2 ! 0) = - 1"
    using t(3) c0 by simp
  have l: "list_all (shift_ok 0 (- 3)) (cells (cache1 3))" "list_all (shift_ok 0 (- 1)) (cells (cache1 0))"
    using o3 o0 by (simp_all add: list_all_iff)
  show ?thesis using r w l c3 c0 s(1,2) t(1,2) a b by blast
qed

text \<open>
  Claim C8, amended. \<open>seq_pos_max(s)\<close> returns the largest of \<open>0\<close> and the positions of the
  cells that contain \<open>s\<close>: it is never negative, it is \<open>0\<close> when no cell contains \<open>s\<close>, and
  it is the maximum position over the cells containing \<open>s\<close> as soon as one of them has a
  position that is not negative.
\<close>

theorem seq_pos_max_floor:
  assumes "wf_cache s"
  shows "seq_pos_max s sid = Max (insert 0 (seq_positions s sid)) \<and>
         0 \<le> seq_pos_max s sid \<and>
         (seq_positions s sid = {} \<longrightarrow> seq_pos_max s sid = 0) \<and>
         ((\<exists>p \<in> seq_positions s sid. 0 \<le> p) \<longrightarrow> seq_pos_max s sid = Max (seq_positions s sid))"
proof -
  have fin: "finite (seq_positions s sid)" by (simp add: seq_positions_def)
  have eq: "seq_pos_max s sid = Max (insert 0 (seq_positions s sid))"
    by (rule seq_pos_max_eq[OF assms])
  have ge: "0 \<le> seq_pos_max s sid" unfolding eq using fin by simp
  have none: "seq_positions s sid = {} \<longrightarrow> seq_pos_max s sid = 0" unfolding eq by simp
  have some: "(\<exists>p \<in> seq_positions s sid. 0 \<le> p) \<longrightarrow> seq_pos_max s sid = Max (seq_positions s sid)"
  proof
    assume "\<exists>p \<in> seq_positions s sid. 0 \<le> p"
    then obtain p where p: "p \<in> seq_positions s sid" "0 \<le> p" by blast
    then have ne: "seq_positions s sid \<noteq> {}" by blast
    have "p \<le> Max (seq_positions s sid)" using p(1) fin by (rule Max_ge[rotated])
    then have "0 \<le> Max (seq_positions s sid)" using p(2) by linarith
    then show "seq_pos_max s sid = Max (seq_positions s sid)"
      unfolding eq using fin ne by (simp add: max_def)
  qed
  show ?thesis using eq ge none some by blast
qed

lemma cache1_positions: "seq_positions (cache1 p) sid = (if sid = 0 then {p} else {})"
  by (auto simp: seq_positions_def cache1_def has_seq_id_def)

theorem seq_pos_max_floor_witness:
  "wf_cache (cache1 6) \<and> seq_positions (cache1 6) 0 = {6} \<and> seq_pos_max (cache1 6) 0 = 6 \<and>
   seq_positions (cache1 6) 1 = {} \<and> seq_pos_max (cache1 6) 1 = 0"
proof -
  have w: "wf_cache (cache1 6)" by (simp add: cache1_def wf_cache_def)
  show ?thesis
    using seq_pos_max_floor[OF w, of 0] seq_pos_max_floor[OF w, of 1] w
    by (simp add: cache1_positions)
qed

lemma cache1_div_neg:
  "seq_div (cache1 5) 0 0 10 (- 1) =
     Inr ((cache1 5)\<lparr>has_shift := True,
            cells := [\<lparr>pos = - 5, delta = - 10, src = -1, tail = -1, seq_id = {0}\<rparr>]\<rparr>)"
  by (simp add: seq_div_def seq_div_step_def cache1_def norm_p0_def norm_p1_def has_seq_id_def
        cdiv_def upt_1 Let_def i32_result_def in_i32_def)

lemma run_div_neg:
  "run [Find_Slot (ub_tok 5), Seq_Div 0 0 10 (- 1)] (init False 1) =
     Inr ((cache1 5)\<lparr>has_shift := True,
            cells := [\<lparr>pos = - 5, delta = - 10, src = -1, tail = -1, seq_id = {0}\<rparr>]\<rparr>)"
  by (subst run_find_slot1) (simp only: run_Cons apply_operation.simps cache1_div_neg bind_res_simps run_Nil)

text \<open>
  Claim C8 as stated fails when every cell containing the sequence has a negative position:
  after one token of sequence \<open>0\<close> at position \<open>5\<close> and \<open>seq_div(0, 0, 10, -1)\<close>, the only
  cell containing \<open>0\<close> has position \<open>-5\<close>, and \<open>seq_pos_max(0)\<close> is \<open>0\<close>.
\<close>

theorem seq_pos_max_counterexample:
  "\<exists>s. run [Find_Slot (ub_tok 5), Seq_Div 0 0 10 (- 1)] (init False 1) = Inr s \<and>
       seq_positions s 0 = {- 5} \<and> Max (seq_positions s 0) = - 5 \<and> seq_pos_max s 0 = 0"
proof -
  let ?s = "(cache1 5)\<lparr>has_shift := True,
            cells := [\<lparr>pos = - 5, delta = - 10, src = -1, tail = -1, seq_id = {0}\<rparr>]\<rparr>"
  have p: "seq_positions ?s 0 = {- 5}" by (auto simp: seq_positions_def has_seq_id_def)
  have m: "seq_pos_max ?s 0 = 0" by (simp add: seq_pos_max_def cache1_def has_seq_id_def upt_1)
  show ?thesis using run_div_neg p m by (intro exI[of _ ?s]) simp
qed

text \<open>
  Claim C1 as stated fails on the same sequence of operations: \<open>seq_div\<close> with the divisor
  \<open>-1\<close> leaves a cell with a negative position in place, and \<open>used\<close> still counts it.
\<close>

theorem used_count_counterexample:
  "\<exists>s. run [Find_Slot (ub_tok 5), Seq_Div 0 0 10 (- 1)] (init False 1) = Inr s \<and>
       used s = 1 \<and> occupied s = 0"
proof -
  let ?s = "(cache1 5)\<lparr>has_shift := True,
            cells := [\<lparr>pos = - 5, delta = - 10, src = -1, tail = -1, seq_id = {0}\<rparr>]\<rparr>"
  have "used ?s = 1" "occupied ?s = 0" by (simp_all add: cache1_def occupied_def)
  then show ?thesis using run_div_neg by (intro exI[of _ ?s]) simp
qed

theorem seq_cp_recurrent_noop_witness:
  "recurrent (init True 2) \<and> seq_cp (init True 2) 0 5 0 (- 1) = Inr (init True 2) \<and>
   seq_cp (init True 2) (- 1) 1 0 (- 1) = Inr (init True 2)"
proof -
  have r: "recurrent (init True 2)" and sz: "size_kv (init True 2) = 2" by (simp_all add: init_def)
  have a: "seq_cp (init True 2) 0 5 0 (- 1) = Inr (init True 2)"
    by (rule seq_cp_recurrent_noop[OF r]) (simp_all add: sz)
  have b: "seq_cp (init True 2) (- 1) 1 0 (- 1) = Inr (init True 2)"
    by (rule seq_cp_recurrent_noop[OF r]) (simp_all add: sz)
  show ?thesis using r a b by blast
qed

lemma find_upt_None: "List.find P [0..<n] = None \<longleftrightarrow> (\<forall>i<n. \<not> P i)"
  by (auto simp: find_None_iff)

lemma find_upt_Some:
  assumes "List.find P [0..<n] = Some i"
  shows "i < n \<and> P i \<and> (\<forall>j<i. \<not> P j)"
proof -
  from assms obtain k where k: "k < length [0..<n]" "P ([0..<n] ! k)" "i = [0..<n] ! k"
      "\<forall>j<k. \<not> P ([0..<n] ! j)"
    unfolding find_Some_iff by blast
  have "k < n" using k(1) by simp
  then have ik: "i = k" using k(3) by simp
  have "\<forall>j<k. \<not> P j"
  proof (intro allI impI)
    fix j assume "j < k"
    then have "\<not> P ([0..<n] ! j)" using k(4) by blast
    moreover have "[0..<n] ! j = j" using \<open>j < k\<close> \<open>k < n\<close> by simp
    ultimately show "\<not> P j" by simp
  qed
  then show ?thesis using k(2) \<open>k < n\<close> ik by simp
qed

lemma scan_step_wrap:
  "h + n_tok > sz \<Longrightarrow> scan_step cs sz n_tok (h, t) = Inr (0, t + (sz - h))"
  by (simp add: scan_step_def)

lemma scan_step_found:
  assumes "h + n_tok \<le> sz" "scan_step cs sz n_tok (h, t) = Inl (True, h')"
  shows "h' = h \<and> free_run cs sz n_tok h"
proof (cases "List.find (\<lambda>i. pos (cs ! (h + i)) \<ge> 0) [0..<n_tok]")
  case None
  then have "\<forall>i<n_tok. \<not> 0 \<le> pos (cs ! (h + i))" by (simp add: find_upt_None)
  then have "free_run cs sz n_tok h" using assms(1) by (simp add: free_run_def not_le)
  moreover have "h' = h" using assms None by (simp add: scan_step_def)
  ultimately show ?thesis by simp
next
  case (Some i)
  then show ?thesis using assms by (simp add: scan_step_def split: if_splits)
qed

lemma scan_step_mismatch:
  assumes "h + n_tok \<le> sz" "scan_step cs sz n_tok (h, t) = Inl (False, h') \<or>
     scan_step cs sz n_tok (h, t) = Inr (h', t')"
  shows "\<exists>i<n_tok. h' = h + (i + 1) \<and>
           (scan_step cs sz n_tok (h, t) = Inl (False, h') \<longrightarrow> sz \<le> t + (i + 1)) \<and>
           (scan_step cs sz n_tok (h, t) = Inr (h', t') \<longrightarrow> t' = t + (i + 1) \<and> t' < sz) \<and>
           (\<forall>p. h \<le> p \<and> p \<le> h + i \<longrightarrow> \<not> free_run cs sz n_tok p)"
proof (cases "List.find (\<lambda>i. pos (cs ! (h + i)) \<ge> 0) [0..<n_tok]")
  case None
  then show ?thesis using assms by (simp add: scan_step_def)
next
  case (Some i)
  from find_upt_Some[OF Some] have i: "i < n_tok" "0 \<le> pos (cs ! (h + i))" by simp_all
  have no: "\<not> free_run cs sz n_tok p" if "h \<le> p \<and> p \<le> h + i" for p
  proof
    assume fr: "free_run cs sz n_tok p"
    have "h + i - p < n_tok" using that i(1) by linarith
    then have "pos (cs ! (p + (h + i - p))) < 0" using fr by (simp add: free_run_def)
    moreover have "p + (h + i - p) = h + i" using that by simp
    ultimately show False using i(2) by simp
  qed
  have st: "scan_step cs sz n_tok (h, t) =
     (if sz \<le> t + (i + 1) then Inl (False, h + (i + 1)) else Inr (h + (i + 1), t + (i + 1)))"
    using assms(1) Some by (simp add: scan_step_def)
  show ?thesis
  proof (cases "sz \<le> t + (i + 1)")
    case True
    then show ?thesis using st assms(2) i(1) no by (intro exI[of _ i]) auto
  next
    case False
    then show ?thesis using st assms(2) i(1) no by (intro exI[of _ i]) auto
  qed
qed

lemma free_run_bound: "free_run cs sz n_tok p \<Longrightarrow> p + n_tok \<le> sz"
  by (simp add: free_run_def)

lemma phase_a_step:
  assumes "n_tok \<le> sz" "h0 \<le> sz" "phase_a cs sz n_tok h0 (h, t)"
    "scan_step cs sz n_tok (h, t) = Inr (h', t')"
  shows "if h + n_tok > sz then phase_b cs sz n_tok h0 (h', t') else phase_a cs sz n_tok h0 (h', t')"
proof (cases "h + n_tok > sz")
  case True
  then have e: "h' = 0" "t' = t + (sz - h)" using assms(4) by (simp_all add: scan_step_wrap)
  have a: "h0 \<le> h" "h \<le> sz" "t = h - h0" "\<forall>p. h0 \<le> p \<and> p < h \<longrightarrow> \<not> free_run cs sz n_tok p"
    using assms(3) by (simp_all add: phase_a_def)
  have "\<not> free_run cs sz n_tok p" if "h0 \<le> p" for p
  proof (cases "p < h")
    case True then show ?thesis using a(4) that by blast
  next
    case False
    then have "p + n_tok > sz" using \<open>h + n_tok > sz\<close> by linarith
    then show ?thesis using free_run_bound[of cs sz n_tok p] by auto
  qed
  then have "phase_b cs sz n_tok h0 (h', t')" using a e by (simp add: phase_b_def)
  then show ?thesis using True by simp
next
  case False
  then have le: "h + n_tok \<le> sz" by simp
  have a: "h0 \<le> h" "h \<le> sz" "t = h - h0" "\<forall>p. h0 \<le> p \<and> p < h \<longrightarrow> \<not> free_run cs sz n_tok p"
    using assms(3) by (simp_all add: phase_a_def)
  from scan_step_mismatch[OF le, of cs t h' t'] assms(4)
  obtain i where i: "i < n_tok" "h' = h + (i + 1)" "t' = t + (i + 1)"
     "\<forall>p. h \<le> p \<and> p \<le> h + i \<longrightarrow> \<not> free_run cs sz n_tok p" by auto
  have "\<not> free_run cs sz n_tok p" if "h0 \<le> p \<and> p < h'" for p
  proof (cases "p < h")
    case True then show ?thesis using a(4) that by blast
  next
    case False
    then have "h \<le> p \<and> p \<le> h + i" using that i(2) by linarith
    then show ?thesis using i(4) by blast
  qed
  moreover have "h' \<le> sz" using i(1,2) le by linarith
  ultimately have "phase_a cs sz n_tok h0 (h', t')" using a i by (simp add: phase_a_def)
  then show ?thesis using False by simp
qed

lemma phase_b_step:
  assumes "n_tok \<le> sz" "h0 \<le> sz" "phase_b cs sz n_tok h0 (h, t)"
    "scan_step cs sz n_tok (h, t) = Inr (h', t')"
  shows "if h + n_tok > sz then phase_c cs sz n_tok (h', t') else phase_b cs sz n_tok h0 (h', t')"
proof (cases "h + n_tok > sz")
  case True
  then have e: "h' = 0" "t' = t + (sz - h)" using assms(4) by (simp_all add: scan_step_wrap)
  have b: "h \<le> sz" "t = sz - h0 + h" "\<forall>p. h0 \<le> p \<or> p < h \<longrightarrow> \<not> free_run cs sz n_tok p"
    using assms(3) by (simp_all add: phase_b_def)
  have "\<not> free_run cs sz n_tok p" for p
  proof (cases "p < h")
    case True then show ?thesis using b(3) by blast
  next
    case False
    then have "p + n_tok > sz" using \<open>h + n_tok > sz\<close> by linarith
    then show ?thesis using free_run_bound[of cs sz n_tok p] by auto
  qed
  moreover have "sz \<le> t'" using e b assms(2) by linarith
  ultimately have "phase_c cs sz n_tok (h', t')" using e by (simp add: phase_c_def)
  then show ?thesis using True by simp
next
  case False
  then have le: "h + n_tok \<le> sz" by simp
  have b: "h \<le> sz" "t = sz - h0 + h" "\<forall>p. h0 \<le> p \<or> p < h \<longrightarrow> \<not> free_run cs sz n_tok p"
    using assms(3) by (simp_all add: phase_b_def)
  from scan_step_mismatch[OF le, of cs t h' t'] assms(4)
  obtain i where i: "i < n_tok" "h' = h + (i + 1)" "t' = t + (i + 1)"
     "\<forall>p. h \<le> p \<and> p \<le> h + i \<longrightarrow> \<not> free_run cs sz n_tok p" by auto
  have "\<not> free_run cs sz n_tok p" if "h0 \<le> p \<or> p < h'" for p
  proof (cases "h0 \<le> p \<or> p < h")
    case True then show ?thesis using b(3) by blast
  next
    case False
    then have "h \<le> p \<and> p \<le> h + i" using that i(2) by linarith
    then show ?thesis using i(4) by blast
  qed
  moreover have "h' \<le> sz" using i(1,2) le by linarith
  ultimately have "phase_b cs sz n_tok h0 (h', t')" using b i by (simp add: phase_b_def)
  then show ?thesis using False by simp
qed

lemma phase_c_step:
  assumes "n_tok \<le> sz" "phase_c cs sz n_tok (h, t)"
  shows "\<exists>r. scan_step cs sz n_tok (h, t) = Inl r"
proof -
  have c: "h = 0" "sz \<le> t" using assms(2) by (simp_all add: phase_c_def)
  show ?thesis
  proof (cases "List.find (\<lambda>i. pos (cs ! (h + i)) \<ge> 0) [0..<n_tok]")
    case None
    then have "scan_step cs sz n_tok (h, t) = Inl (True, h)" using c assms(1) by (simp add: scan_step_def)
    then show ?thesis by blast
  next
    case (Some i)
    then have "scan_step cs sz n_tok (h, t) = Inl (False, h + (i + 1))"
      using c assms(1) by (simp add: scan_step_def)
    then show ?thesis by blast
  qed
qed

lemma result_post:
  assumes "n_tok \<le> sz" "h0 \<le> sz"
    "phase_a cs sz n_tok h0 (h, t) \<or> phase_b cs sz n_tok h0 (h, t) \<or> phase_c cs sz n_tok (h, t)"
    "scan_step cs sz n_tok (h, t) = Inl (found, h')"
  shows "(found \<longrightarrow> first_run cs sz n_tok h0 h' \<and> \<not> phase_c cs sz n_tok (h, t)) \<and>
         (\<not> found \<longrightarrow> no_run cs sz n_tok \<and> h' \<le> sz)"
proof -
  have hs: "h \<le> sz" using assms(3) by (auto simp: phase_a_def phase_b_def phase_c_def)
  have le: "h + n_tok \<le> sz"
  proof (rule ccontr)
    assume "\<not> h + n_tok \<le> sz"
    then show False using assms(4) by (simp add: scan_step_wrap)
  qed
  show ?thesis
  proof (cases found)
    case True
    from scan_step_found[OF le, of cs t h'] assms(4) True
    have f: "h' = h" "free_run cs sz n_tok h" by simp_all
    have nc: "\<not> phase_c cs sz n_tok (h, t)" using f(2) by (auto simp: phase_c_def)
    from assms(3) nc consider "phase_a cs sz n_tok h0 (h, t)" | "phase_b cs sz n_tok h0 (h, t)" by blast
    then have "first_run cs sz n_tok h0 h"
    proof cases
      case 1
      then show ?thesis using f(2) by (simp add: phase_a_def first_run_def)
    next
      case 2
      then have b: "\<forall>p. h0 \<le> p \<or> p < h \<longrightarrow> \<not> free_run cs sz n_tok p" by (simp add: phase_b_def)
      then have "\<not> h0 \<le> h" using f(2) by blast
      then show ?thesis using f(2) b by (simp add: first_run_def)
    qed
    then show ?thesis using True f(1) nc by simp
  next
    case False
    from scan_step_mismatch[OF le, of cs t h' 0] assms(4) False
    obtain i where i: "i < n_tok" "h' = h + (i + 1)" "sz \<le> t + (i + 1)"
       "\<forall>p. h \<le> p \<and> p \<le> h + i \<longrightarrow> \<not> free_run cs sz n_tok p" by auto
    have h': "h' \<le> sz" using i(1,2) le by linarith
    have "\<not> free_run cs sz n_tok p" for p
    proof -
      from assms(3) consider "phase_a cs sz n_tok h0 (h, t)" | "phase_b cs sz n_tok h0 (h, t)"
        | "phase_c cs sz n_tok (h, t)" by blast
      then show ?thesis
      proof cases
        case 1
        then have a: "h0 \<le> h" "t = h - h0" "\<forall>p. h0 \<le> p \<and> p < h \<longrightarrow> \<not> free_run cs sz n_tok p"
          by (simp_all add: phase_a_def)
        have "h0 = 0" "h' = sz" using a(1,2) i(2,3) h' by linarith+
        show ?thesis
        proof (cases "p < h'")
          case True
          then show ?thesis using a(3) i(4) i(2) \<open>h0 = 0\<close>
            by (cases "p < h") (auto simp: not_less)
        next
          case False
          then have "p + n_tok > sz" using \<open>h' = sz\<close> i(1) by linarith
          then show ?thesis using free_run_bound[of cs sz n_tok p] by auto
        qed
      next
        case 2
        then have b: "t = sz - h0 + h" "\<forall>p. h0 \<le> p \<or> p < h \<longrightarrow> \<not> free_run cs sz n_tok p"
          by (simp_all add: phase_b_def)
        have "h0 \<le> h'" using b(1) i(2,3) assms(2) by linarith
        show ?thesis
        proof (cases "h0 \<le> p \<or> p < h")
          case True then show ?thesis using b(2) by blast
        next
          case False
          then have "h \<le> p \<and> p \<le> h + i" using \<open>h0 \<le> h'\<close> i(2) by linarith
          then show ?thesis using i(4) by blast
        qed
      next
        case 3
        then show ?thesis by (simp add: phase_c_def)
      qed
    qed
    then show ?thesis using False h' by (simp add: no_run_def)
  qed
qed

lemma wrap_count_Suc:
  "wrap_count cs sz n_tok st (Suc k) =
     wrap_count cs sz n_tok st k + (if wraps_at cs sz n_tok st k then 1 else 0)"
  by (simp add: wrap_count_def)

lemma wrap_count_0 [simp]: "wrap_count cs sz n_tok st 0 = 0"
  by (simp add: wrap_count_def)

lemma trace_inv_all:
  assumes "n_tok \<le> sz" "h0 \<le> sz"
  shows "trace_inv cs sz n_tok h0 k"
proof (induction k)
  case 0
  have "phase_a cs sz n_tok h0 (h0, 0)" using assms(2) by (auto simp: phase_a_def)
  then show ?case by (simp add: trace_inv_def)
next
  case (Suc k)
  let ?w = "wrap_count cs sz n_tok (h0, 0)"
  show ?case
  proof (cases "scan_iter cs sz n_tok (h0, 0) k")
    case (Inl r)
    then have "scan_iter cs sz n_tok (h0, 0) (Suc k) = Inl r" by simp
    moreover have "?w (Suc k) = ?w k" using Inl by (simp add: wrap_count_Suc wraps_at_def)
    ultimately show ?thesis using Suc Inl by (simp add: trace_inv_def)
  next
    case (Inr st)
    obtain h t where st: "st = (h, t)" by (cases st)
    have it: "scan_iter cs sz n_tok (h0, 0) (Suc k) = scan_step cs sz n_tok (h, t)"
      using Inr st by simp
    have w: "?w (Suc k) = ?w k + (if h + n_tok > sz then 1 else 0)"
      using Inr st by (simp add: wrap_count_Suc wraps_at_def)
    have ph: "(?w k = 0 \<and> phase_a cs sz n_tok h0 (h, t)) \<or> (?w k = 1 \<and> phase_b cs sz n_tok h0 (h, t)) \<or>
              (?w k = 2 \<and> phase_c cs sz n_tok (h, t))"
      using Suc Inr st by (simp add: trace_inv_def)
    show ?thesis
    proof (cases "scan_step cs sz n_tok (h, t)")
      case L: (Inl r)
      obtain found h' where r: "r = (found, h')" by (cases r)
      have nw: "\<not> h + n_tok > sz" using L by (auto simp: scan_step_wrap)
      have ph': "phase_a cs sz n_tok h0 (h, t) \<or> phase_b cs sz n_tok h0 (h, t) \<or> phase_c cs sz n_tok (h, t)"
        using ph by blast
      from result_post[OF assms ph', of found h'] L r
      have post: "found \<longrightarrow> first_run cs sz n_tok h0 h' \<and> \<not> phase_c cs sz n_tok (h, t)"
        "\<not> found \<longrightarrow> no_run cs sz n_tok \<and> h' \<le> sz" by simp_all
      have w2: "?w (Suc k) \<le> 2" using w nw ph by auto
      have w1: "found \<longrightarrow> ?w (Suc k) \<le> 1" using w nw ph post(1) by auto
      show ?thesis using it L r post w2 w1 by (simp add: trace_inv_def)
    next
      case R: (Inr st')
      obtain h' t' where st': "st' = (h', t')" by (cases st')
      have R': "scan_step cs sz n_tok (h, t) = Inr (h', t')" using R st' by simp
      from ph consider (a) "?w k = 0" "phase_a cs sz n_tok h0 (h, t)"
        | (b) "?w k = 1" "phase_b cs sz n_tok h0 (h, t)"
        | (c) "?w k = 2" "phase_c cs sz n_tok (h, t)" by auto
      then have "(?w (Suc k) = 0 \<and> phase_a cs sz n_tok h0 (h', t')) \<or>
                 (?w (Suc k) = 1 \<and> phase_b cs sz n_tok h0 (h', t')) \<or>
                 (?w (Suc k) = 2 \<and> phase_c cs sz n_tok (h', t'))"
      proof cases
        case a
        from phase_a_step[OF assms a(2) R'] show ?thesis using w a(1) by (auto split: if_splits)
      next
        case b
        from phase_b_step[OF assms b(2) R'] show ?thesis using w b(1) by (auto split: if_splits)
      next
        case c
        from phase_c_step[OF assms(1) c(2)] R' show ?thesis by auto
      qed
      then show ?thesis using it R' by (simp add: trace_inv_def)
    qed
  qed
qed

lemma scan_step_decreases:
  assumes "n_tok \<le> sz" "scan_step cs sz n_tok (h, t) = Inr (h', t')"
  shows "scan_measure sz n_tok (h', t') < scan_measure sz n_tok (h, t)"
proof (cases "h + n_tok > sz")
  case True
  then have "h' = 0" "t' = t + (sz - h)" using assms(2) by (simp_all add: scan_step_wrap)
  then show ?thesis using True assms(1) by (simp add: scan_measure_def)
next
  case False
  then have le: "h + n_tok \<le> sz" by simp
  from scan_step_mismatch[OF le, of cs t h' t'] assms(2)
  obtain i where "t' = t + (i + 1)" "t' < sz" by auto
  then show ?thesis by (auto simp: scan_measure_def)
qed

lemma scan_iter_measure:
  assumes "n_tok \<le> sz" "scan_iter cs sz n_tok st0 k = Inr st"
  shows "k + scan_measure sz n_tok st \<le> scan_measure sz n_tok st0"
  using assms(2)
proof (induction k arbitrary: st)
  case 0
  then show ?case by simp
next
  case (Suc k)
  then obtain st1 where s1: "scan_iter cs sz n_tok st0 k = Inr st1" "scan_step cs sz n_tok st1 = Inr st"
    by (auto split: sum.splits)
  obtain h t h' t' where p: "st1 = (h, t)" "st = (h', t')" by (cases st1, cases st) auto
  from scan_step_decreases[OF assms(1), of cs h t h' t'] s1(2) p
  have "scan_measure sz n_tok st < scan_measure sz n_tok st1" by simp
  then show ?case using Suc.IH[OF s1(1)] by linarith
qed

lemma scan_iter_returns:
  assumes "n_tok \<le> sz"
  shows "\<exists>k r. scan_iter cs sz n_tok st0 k = Inl r"
proof (rule ccontr)
  assume a: "\<not> (\<exists>k r. scan_iter cs sz n_tok st0 k = Inl r)"
  obtain st where "scan_iter cs sz n_tok st0 (Suc (scan_measure sz n_tok st0)) = Inr st"
  proof (cases "scan_iter cs sz n_tok st0 (Suc (scan_measure sz n_tok st0))")
    case (Inl r)
    then show ?thesis using a by blast
  next
    case (Inr st)
    then show ?thesis using that by blast
  qed
  from scan_iter_measure[OF assms this] show False by simp
qed

lemma scan_iter_Inr_loop:
  "scan_iter cs sz n_tok st0 k = Inr st \<Longrightarrow> find_slot_scan cs sz n_tok st0 = find_slot_scan cs sz n_tok st"
proof (induction k arbitrary: st)
  case 0
  then show ?case by simp
next
  case (Suc k)
  then obtain st1 where s1: "scan_iter cs sz n_tok st0 k = Inr st1" "scan_step cs sz n_tok st1 = Inr st"
    by (auto split: sum.splits)
  have "find_slot_scan cs sz n_tok st1 = find_slot_scan cs sz n_tok st"
    by (subst find_slot_scan.simps) (simp add: s1(2))
  then show ?case using Suc.IH[OF s1(1)] by simp
qed

lemma scan_iter_Inl_loop:
  "scan_iter cs sz n_tok st0 k = Inl r \<Longrightarrow> find_slot_scan cs sz n_tok st0 = Some r"
proof (induction k)
  case 0
  then show ?case by simp
next
  case (Suc k)
  show ?case
  proof (cases "scan_iter cs sz n_tok st0 k")
    case (Inl r')
    then show ?thesis using Suc by simp
  next
    case (Inr st)
    then have "scan_step cs sz n_tok st = Inl r" using Suc.prems by simp
    then have "find_slot_scan cs sz n_tok st = Some r"
      by (subst find_slot_scan.simps) simp
    then show ?thesis using scan_iter_Inr_loop[OF Inr] by simp
  qed
qed

lemma find_slot_scan_spec:
  assumes "n_tok \<le> sz" "h0 \<le> sz"
  shows "\<exists>found h'. find_slot_scan cs sz n_tok (h0, 0) = Some (found, h') \<and>
           (found \<longrightarrow> first_run cs sz n_tok h0 h') \<and>
           (\<not> found \<longrightarrow> no_run cs sz n_tok \<and> h' \<le> sz) \<and>
           (\<forall>k. wrap_count cs sz n_tok (h0, 0) k \<le> (if found then 1 else 2))"
proof -
  obtain k r where k: "scan_iter cs sz n_tok (h0, 0) k = Inl r"
    using scan_iter_returns[OF assms(1)] by blast
  obtain found h' where r: "r = (found, h')" by (cases r)
  have res: "find_slot_scan cs sz n_tok (h0, 0) = Some (found, h')"
    using scan_iter_Inl_loop[OF k] r by simp
  have post: "found \<longrightarrow> first_run cs sz n_tok h0 h'" "\<not> found \<longrightarrow> no_run cs sz n_tok \<and> h' \<le> sz"
    using trace_inv_all[OF assms, of cs k] k r by (simp_all add: trace_inv_def)
  have wc: "wrap_count cs sz n_tok (h0, 0) j \<le> (if found then 1 else 2)" for j
  proof (cases "scan_iter cs sz n_tok (h0, 0) j")
    case (Inl r')
    obtain f' h'' where r': "r' = (f', h'')" by (cases r')
    have ti: "wrap_count cs sz n_tok (h0, 0) j \<le> 2"
       "f' \<longrightarrow> wrap_count cs sz n_tok (h0, 0) j \<le> 1" "\<not> f' \<longrightarrow> no_run cs sz n_tok"
      using trace_inv_all[OF assms, of cs j] Inl r' by (simp_all add: trace_inv_def)
    show ?thesis
    proof (cases found)
      case True
      then have "free_run cs sz n_tok h'" using post(1) by (simp add: first_run_def)
      then have "\<not> no_run cs sz n_tok" by (auto simp: no_run_def)
      then show ?thesis using ti True by auto
    next
      case False
      then show ?thesis using ti by simp
    qed
  next
    case (Inr st)
    have ti: "(wrap_count cs sz n_tok (h0, 0) j = 0 \<and> phase_a cs sz n_tok h0 st) \<or>
          (wrap_count cs sz n_tok (h0, 0) j = 1 \<and> phase_b cs sz n_tok h0 st) \<or>
          (wrap_count cs sz n_tok (h0, 0) j = 2 \<and> phase_c cs sz n_tok st)"
      using trace_inv_all[OF assms, of cs j] Inr by (simp add: trace_inv_def)
    show ?thesis
    proof (cases found)
      case True
      then have "free_run cs sz n_tok h'" using post(1) by (simp add: first_run_def)
      then have "\<not> phase_c cs sz n_tok st" by (cases st) (auto simp: phase_c_def)
      then show ?thesis using ti True by auto
    next
      case False
      then show ?thesis using ti by auto
    qed
  qed
  show ?thesis using res post wc by blast
qed

lemma upd_range_0 [simp]: "upd_range h f 0 xs = xs"
  by (simp add: upd_range_def)

lemma upd_range_length [simp]: "h + n \<le> length xs \<Longrightarrow> length (upd_range h f n xs) = length xs"
  by (simp add: upd_range_def)

lemma upd_range_nth:
  "h + n \<le> length xs \<Longrightarrow> j < length xs \<Longrightarrow>
   upd_range h f n xs ! j = (if h \<le> j \<and> j < h + n then f (j - h) (xs ! j) else xs ! j)"
  by (auto simp: upd_range_def nth_append min_def)

lemma upd_range_Suc:
  assumes "h + n < length xs"
  shows "(upd_range h f n xs)[h + n := f n (upd_range h f n xs ! (h + n))] = upd_range h f (Suc n) xs"
proof (rule nth_equalityI)
  show "length ((upd_range h f n xs)[h + n := f n (upd_range h f n xs ! (h + n))]) = length (upd_range h f (Suc n) xs)"
    using assms by simp
next
  fix j assume "j < length ((upd_range h f n xs)[h + n := f n (upd_range h f n xs ! (h + n))])"
  then have j: "j < length xs" using assms by simp
  have a: "h + n \<le> length xs" "h + Suc n \<le> length xs" using assms by simp_all
  show "(upd_range h f n xs)[h + n := f n (upd_range h f n xs ! (h + n))] ! j = upd_range h f (Suc n) xs ! j"
  proof (cases "j = h + n")
    case True
    then show ?thesis using assms a j by (simp add: upd_range_nth)
  next
    case False
    then show ?thesis using assms a j by (auto simp: upd_range_nth)
  qed
qed

lemma fold_res_upt_Suc:
  "fold_res f [0..<Suc m] s = bind_res (fold_res f [0..<m] s) (f m)"
proof -
  have "[0..<Suc m] = [0..<m] @ [m]" by simp
  then show ?thesis by (simp only: fold_res_snoc)
qed

lemma seq_id_loop:
  assumes "s < length (ub_seq_id ub)" "m \<le> length (ub_seq_id ub ! s)"
  shows "fold_res (\<lambda>j st'.
            bind_res (seq_id_at ub s j) (\<lambda>q.
              let c' = cells st' ! idx
              in Inr (set_cell st' (int idx) (c'\<lparr>seq_id := insert q (seq_id c')\<rparr>))))
          [0..<m] st0 =
         Inr (st0\<lparr>cells := (cells st0)[idx := (cells st0 ! idx)\<lparr>seq_id :=
                  seq_id (cells st0 ! idx) \<union> set (take m (ub_seq_id ub ! s))\<rparr>]\<rparr>)"
  using assms(2)
proof (induction m)
  case 0
  then show ?case by simp
next
  case (Suc m)
  have m: "m < length (ub_seq_id ub ! s)" using Suc.prems by simp
  have q: "seq_id_at ub s m = Inr (ub_seq_id ub ! s ! m)"
    using assms(1) m by (simp add: seq_id_at_def arr_at_def)
  have tk: "set (take (Suc m) (ub_seq_id ub ! s)) = insert (ub_seq_id ub ! s ! m) (set (take m (ub_seq_id ub ! s)))"
    using m by (simp add: take_Suc_conv_app_nth)
  have ih: "fold_res (\<lambda>j st'.
            bind_res (seq_id_at ub s j) (\<lambda>q.
              let c' = cells st' ! idx
              in Inr (set_cell st' (int idx) (c'\<lparr>seq_id := insert q (seq_id c')\<rparr>))))
          [0..<m] st0 =
         Inr (st0\<lparr>cells := (cells st0)[idx := (cells st0 ! idx)\<lparr>seq_id :=
                  seq_id (cells st0 ! idx) \<union> set (take m (ub_seq_id ub ! s))\<rparr>]\<rparr>)"
    using Suc.IH m by simp
  show ?case
    unfolding fold_res_upt_Suc ih tk
  proof (cases "idx < length (cells st0)")
    case True
    then show "bind_res (Inr (st0\<lparr>cells := (cells st0)[idx := (cells st0 ! idx)\<lparr>seq_id :=
                  seq_id (cells st0 ! idx) \<union> set (take m (ub_seq_id ub ! s))\<rparr>]\<rparr>))
       (\<lambda>st'. bind_res (seq_id_at ub s m) (\<lambda>q.
              let c' = cells st' ! idx
              in Inr (set_cell st' (int idx) (c'\<lparr>seq_id := insert q (seq_id c')\<rparr>)))) =
       Inr (st0\<lparr>cells := (cells st0)[idx := (cells st0 ! idx)\<lparr>seq_id :=
                  seq_id (cells st0 ! idx) \<union> insert (ub_seq_id ub ! s ! m) (set (take m (ub_seq_id ub ! s)))\<rparr>]\<rparr>)"
      by (simp add: q set_cell_def Let_def)
  next
    case False
    then show "bind_res (Inr (st0\<lparr>cells := (cells st0)[idx := (cells st0 ! idx)\<lparr>seq_id :=
                  seq_id (cells st0 ! idx) \<union> set (take m (ub_seq_id ub ! s))\<rparr>]\<rparr>))
       (\<lambda>st'. bind_res (seq_id_at ub s m) (\<lambda>q.
              let c' = cells st' ! idx
              in Inr (set_cell st' (int idx) (c'\<lparr>seq_id := insert q (seq_id c')\<rparr>)))) =
       Inr (st0\<lparr>cells := (cells st0)[idx := (cells st0 ! idx)\<lparr>seq_id :=
                  seq_id (cells st0 ! idx) \<union> insert (ub_seq_id ub ! s ! m) (set (take m (ub_seq_id ub ! s)))\<rparr>]\<rparr>)"
      by (simp add: q set_cell_def Let_def list_update_beyond not_less)
  qed
qed

lemma ubatch_ok_token:
  assumes "ubatch_ok ub" "s < n_seqs ub" "i < n_seq_tokens ub"
  shows "s * n_seq_tokens ub + i < n_tokens ub" "(s * n_seq_tokens ub + i) div n_seq_tokens ub = s"
proof -
  have "s * n_seq_tokens ub + i < s * n_seq_tokens ub + n_seq_tokens ub" using assms(3) by simp
  also have "\<dots> = Suc s * n_seq_tokens ub" by simp
  also have "\<dots> \<le> n_seqs ub * n_seq_tokens ub" using assms(2) by (intro mult_le_mono1) simp
  finally show "s * n_seq_tokens ub + i < n_tokens ub" using assms(1) by (simp add: ubatch_ok_def)
  show "(s * n_seq_tokens ub + i) div n_seq_tokens ub = s" using assms(3) by simp
qed

lemma cell_at_int: "i < length (cells s) \<Longrightarrow> cell_at s (int i) = Inr (cells s ! i)"
  by (simp add: cell_at_def)

lemma set_cell_int: "set_cell s (int i) c = s\<lparr>cells := (cells s)[i := c]\<rparr>"
  by (simp add: set_cell_def)

lemma stamp_final:
  assumes "idx < length (cells st)"
  shows "(set_cell st (int idx) c0)\<lparr>cells := (cells (set_cell st (int idx) c0))[idx :=
            (cells (set_cell st (int idx) c0) ! idx)\<lparr>seq_id :=
               seq_id (cells (set_cell st (int idx) c0) ! idx) \<union> S\<rparr>]\<rparr> =
         st\<lparr>cells := (cells st)[idx := c0\<lparr>seq_id := seq_id c0 \<union> S\<rparr>]\<rparr>"
  using assms by (simp add: set_cell_def)

lemma stamp_token_Inr:
  assumes "ubatch_ok ub" "s < n_seqs ub" "i < n_seq_tokens ub"
    "head st + n_tokens ub \<le> length (cells st)"
  shows "stamp_token ub s i st =
     Inr (st\<lparr>cells := (cells st)[head st + (s * n_seq_tokens ub + i) :=
             stamp_cell ub (s * n_seq_tokens ub + i) (cells st ! (head st + (s * n_seq_tokens ub + i)))]\<rparr>)"
proof -
  let ?k = "s * n_seq_tokens ub + i"
  let ?idx = "head st + ?k"
  have k: "?k < n_tokens ub" "?k div n_seq_tokens ub = s" using ubatch_ok_token[OF assms(1-3)] by simp_all
  have p: "arr_at (ub_pos ub) ?k = Inr (ub_pos ub ! ?k)"
    using k(1) assms(1) by (simp add: arr_at_def ubatch_ok_def)
  have idx: "?idx < length (cells st)" using k(1) assms(4) by linarith
  have c: "cell_at st (int ?idx) = Inr (cells st ! ?idx)" using idx by (rule cell_at_int)
  have n: "arr_at (n_seq_id ub) s = Inr (n_seq_id ub ! s)"
    using assms(1,2) by (simp add: arr_at_def ubatch_ok_def)
  have s1: "s < length (ub_seq_id ub)" using assms(1,2) by (simp add: ubatch_ok_def)
  have s2: "nat (n_seq_id ub ! s) \<le> length (ub_seq_id ub ! s)" using assms(1,2) by (simp add: ubatch_ok_def)
  let ?st0 = "set_cell st (int ?idx) ((cells st ! ?idx)\<lparr>pos := ub_pos ub ! ?k\<rparr>)"
  have "stamp_token ub s i st =
     fold_res (\<lambda>j st'.
            bind_res (seq_id_at ub s j) (\<lambda>q.
              let c' = cells st' ! ?idx
              in Inr (set_cell st' (int ?idx) (c'\<lparr>seq_id := insert q (seq_id c')\<rparr>))))
          [0..<nat (n_seq_id ub ! s)] ?st0"
    by (simp only: stamp_token_def Let_def p c n bind_res_simps)
  also have "\<dots> = Inr (?st0\<lparr>cells := (cells ?st0)[?idx := (cells ?st0 ! ?idx)\<lparr>seq_id :=
                  seq_id (cells ?st0 ! ?idx) \<union> set (take (nat (n_seq_id ub ! s)) (ub_seq_id ub ! s))\<rparr>]\<rparr>)"
    by (rule seq_id_loop[OF s1 s2])
  also have "\<dots> = Inr (st\<lparr>cells := (cells st)[?idx := stamp_cell ub ?k (cells st ! ?idx)]\<rparr>)"
    unfolding stamp_final[OF idx] by (simp add: stamp_cell_def group_ids_def k(2))
  finally show ?thesis .
qed

lemma stamp_inner:
  assumes "ubatch_ok ub" "s < n_seqs ub" "i \<le> n_seq_tokens ub"
    "head st0 + n_tokens ub \<le> length (cells st0)"
  shows "fold_res (stamp_token ub s) [0..<i]
           (st0\<lparr>cells := upd_range (head st0) (stamp_cell ub) (s * n_seq_tokens ub) (cells st0)\<rparr>) =
         Inr (st0\<lparr>cells := upd_range (head st0) (stamp_cell ub) (s * n_seq_tokens ub + i) (cells st0)\<rparr>)"
  using assms(3)
proof (induction i)
  case 0
  then show ?case by simp
next
  case (Suc i)
  let ?k = "s * n_seq_tokens ub + i"
  let ?st1 = "st0\<lparr>cells := upd_range (head st0) (stamp_cell ub) ?k (cells st0)\<rparr>"
  have i: "i < n_seq_tokens ub" using Suc.prems by simp
  have k: "?k < n_tokens ub" using ubatch_ok_token(1)[OF assms(1,2) i] .
  have len: "head st0 + ?k < length (cells st0)" using k assms(4) by linarith
  have l1: "length (cells ?st1) = length (cells st0)" using len by simp
  have h1: "head ?st1 + n_tokens ub \<le> length (cells ?st1)" using assms(4) l1 by simp
  have ih: "fold_res (stamp_token ub s) [0..<i]
           (st0\<lparr>cells := upd_range (head st0) (stamp_cell ub) (s * n_seq_tokens ub) (cells st0)\<rparr>) = Inr ?st1"
    using Suc.IH i by simp
  have st: "stamp_token ub s i ?st1 =
     Inr (?st1\<lparr>cells := (cells ?st1)[head ?st1 + ?k := stamp_cell ub ?k (cells ?st1 ! (head ?st1 + ?k))]\<rparr>)"
    by (rule stamp_token_Inr[OF assms(1,2) i h1])
  have "(cells ?st1)[head ?st1 + ?k := stamp_cell ub ?k (cells ?st1 ! (head ?st1 + ?k))]
        = upd_range (head st0) (stamp_cell ub) (Suc ?k) (cells st0)"
    using upd_range_Suc[OF len, of "stamp_cell ub"] by simp
  then have st': "stamp_token ub s i ?st1 =
     Inr (st0\<lparr>cells := upd_range (head st0) (stamp_cell ub) (Suc ?k) (cells st0)\<rparr>)"
    using st by simp
  show ?case unfolding fold_res_upt_Suc ih using st' by simp
qed

lemma stamp_outer:
  assumes "ubatch_ok ub" "m \<le> n_seqs ub" "head st0 + n_tokens ub \<le> length (cells st0)"
  shows "fold_res (\<lambda>s. fold_res (stamp_token ub s) [0..<n_seq_tokens ub]) [0..<m] st0 =
         Inr (st0\<lparr>cells := upd_range (head st0) (stamp_cell ub) (m * n_seq_tokens ub) (cells st0)\<rparr>)"
  using assms(2)
proof (induction m)
  case 0
  then show ?case by simp
next
  case (Suc m)
  have m: "m < n_seqs ub" using Suc.prems by simp
  have ih: "fold_res (\<lambda>s. fold_res (stamp_token ub s) [0..<n_seq_tokens ub]) [0..<m] st0 =
         Inr (st0\<lparr>cells := upd_range (head st0) (stamp_cell ub) (m * n_seq_tokens ub) (cells st0)\<rparr>)"
    using Suc.IH m by simp
  have "fold_res (stamp_token ub m) [0..<n_seq_tokens ub]
           (st0\<lparr>cells := upd_range (head st0) (stamp_cell ub) (m * n_seq_tokens ub) (cells st0)\<rparr>) =
         Inr (st0\<lparr>cells := upd_range (head st0) (stamp_cell ub) (m * n_seq_tokens ub + n_seq_tokens ub) (cells st0)\<rparr>)"
    by (rule stamp_inner[OF assms(1) m _ assms(3)]) simp
  then show ?case unfolding fold_res_upt_Suc ih by (simp add: add.commute)
qed

lemma stamp_all_Inr:
  assumes "ubatch_ok ub" "head st0 + n_tokens ub \<le> length (cells st0)"
  shows "stamp_all ub st0 =
         Inr (st0\<lparr>cells := upd_range (head st0) (stamp_cell ub) (n_tokens ub) (cells st0)\<rparr>)"
proof -
  have "n_tokens ub = n_seqs ub * n_seq_tokens ub" using assms(1) by (simp add: ubatch_ok_def)
  then show ?thesis using stamp_outer[OF assms(1) _ assms(2), of "n_seqs ub"] by (simp add: stamp_all_def)
qed

lemma first_run_free: "first_run cs sz n_tok h0 p \<Longrightarrow> p + n_tok \<le> sz"
  by (simp add: first_run_def free_run_def)

lemma scan_step_rule: "scan_rule cs sz n_tok st (scan_step cs sz n_tok st)"
proof (cases st)
  case (Pair h t)
  show ?thesis
  proof (cases "h + n_tok > sz")
    case True
    then show ?thesis using Pair by (simp add: scan_rule_def scan_step_def)
  next
    case False
    show ?thesis
    proof (cases "List.find (\<lambda>i. 0 \<le> pos (cs ! (h + i))) [0..<n_tok]")
      case None
      then have "\<forall>i<n_tok. \<not> 0 \<le> pos (cs ! (h + i))" by (simp add: find_upt_None)
      then have "free_run cs sz n_tok h" using False by (simp add: free_run_def not_le)
      then show ?thesis using Pair False None by (simp add: scan_rule_def scan_step_def)
    next
      case (Some i)
      from find_upt_Some[OF Some] have i: "i < n_tok" "0 \<le> pos (cs ! (h + i))"
        "\<forall>j<i. pos (cs ! (h + j)) < 0" by (simp_all add: not_le)
      have nf: "\<not> free_run cs sz n_tok h" using i(1,2) by (auto simp: free_run_def)
      have "\<exists>i'<n_tok. 0 \<le> pos (cs ! (h + i')) \<and> (\<forall>j<i'. pos (cs ! (h + j)) < 0) \<and>
            scan_step cs sz n_tok (h, t) =
              (if sz \<le> t + (i' + 1) then Inl (False, h + (i' + 1)) else Inr (h + (i' + 1), t + (i' + 1)))"
        using i False Some by (intro exI[of _ i]) (simp add: scan_step_def)
      then show ?thesis using Pair False nf by (simp add: scan_rule_def)
    qed
  qed
qed

lemma scan_iter_rule:
  "scan_iter cs sz n_tok st0 k = Inr st \<Longrightarrow> scan_rule cs sz n_tok st (scan_iter cs sz n_tok st0 (Suc k))"
  by (simp add: scan_step_rule)

lemma scan_result_trace:
  assumes "n_tok \<le> sz" "find_slot_scan cs sz n_tok st0 = Some r"
  shows "\<exists>k. scan_iter cs sz n_tok st0 k = Inl r"
proof -
  obtain k r' where k: "scan_iter cs sz n_tok st0 k = Inl r'"
    using scan_iter_returns[OF assms(1)] by blast
  from scan_iter_Inl_loop[OF k] assms(2) have "r' = r" by simp
  then show ?thesis using k by blast
qed

lemma find_slot_transformer_core:
  assumes "\<not> recurrent s" and "wf_cache s" and "head s \<le> size_kv s" and "size_kv s < 2147483648"
    and "ubatch_ok ub"
  shows "\<exists>info s'. find_slot s ub = Inr (info, s') \<and>
     (\<not> ok info \<longleftrightarrow> n_tokens ub > size_kv s \<or> no_run (cells s) (size_kv s) (n_tokens ub)) \<and>
     (\<not> ok info \<longrightarrow> s' = s\<lparr>head := head s'\<rparr> \<and> head s' \<le> size_kv s) \<and>
     (ok info \<longrightarrow>
        first_run (cells s) (size_kv s) (n_tokens ub) (head s) (head s') \<and>
        slot_begin info = head s' \<and> slot_end info = head s' + n_tokens ub \<and>
        s' = s\<lparr>head := head s', used := add32 (used s) (n_tokens ub),
               cells := upd_range (head s') (stamp_cell ub) (n_tokens ub) (cells s)\<rparr>) \<and>
     (n_tokens ub \<le> size_kv s \<longrightarrow>
        (\<forall>k. wrap_count (cells s) (size_kv s) (n_tokens ub) (head s, 0) k \<le> (if ok info then 1 else 2))) \<and>
     (n_tokens ub > size_kv s \<longrightarrow> s' = s) \<and>
     (n_tokens ub \<le> size_kv s \<longrightarrow>
        find_slot_scan (cells s) (size_kv s) (n_tokens ub) (head s, 0) = Some (ok info, head s'))"
proof (cases "n_tokens ub > size_kv s")
  case True
  have r: "find_slot s ub = Inr (slot_info_failed, s)"
    using True assms(1) by (simp add: find_slot_def find_slot_transformer_def)
  show ?thesis
    using r True assms(3)
    by (intro exI[of _ slot_info_failed] exI[of _ s]) (simp add: slot_info_failed_def)
next
  case False
  then have nt: "n_tokens ub \<le> size_kv s" by simp
  from find_slot_scan_spec[OF nt assms(3), of "cells s"]
  obtain found h' where sc: "find_slot_scan (cells s) (size_kv s) (n_tokens ub) (head s, 0) = Some (found, h')"
    "found \<longrightarrow> first_run (cells s) (size_kv s) (n_tokens ub) (head s) h'"
    "\<not> found \<longrightarrow> no_run (cells s) (size_kv s) (n_tokens ub) \<and> h' \<le> size_kv s"
    "\<forall>k. wrap_count (cells s) (size_kv s) (n_tokens ub) (head s, 0) k \<le> (if found then 1 else 2)"
    by blast
  show ?thesis
  proof (cases found)
    case F: False
    have r: "find_slot s ub = Inr (slot_info_failed, s\<lparr>head := h'\<rparr>)"
      using False F sc(1) assms(1) by (simp add: find_slot_def find_slot_transformer_def)
    show ?thesis
      using r sc(1,3,4) F False
      by (intro exI[of _ slot_info_failed] exI[of _ "s\<lparr>head := h'\<rparr>"]) (simp add: slot_info_failed_def)
  next
    case T: True
    have fr: "first_run (cells s) (size_kv s) (n_tokens ub) (head s) h'" using sc(2) T by simp
    then have b: "h' + n_tokens ub \<le> size_kv s" by (rule first_run_free)
    have len: "head (s\<lparr>head := h'\<rparr>) + n_tokens ub \<le> length (cells (s\<lparr>head := h'\<rparr>))"
      using b assms(2) by (simp add: wf_cache_def)
    have st: "stamp_all ub (s\<lparr>head := h'\<rparr>) =
       Inr (s\<lparr>head := h', cells := upd_range h' (stamp_cell ub) (n_tokens ub) (cells s)\<rparr>)"
      using stamp_all_Inr[OF assms(5) len] by simp
    have a32: "add32 h' (n_tokens ub) = h' + n_tokens ub"
      using b assms(4) by (simp add: add32_def)
    let ?info = "slot_info_range h' (h' + n_tokens ub)"
    let ?s' = "s\<lparr>head := h', used := add32 (used s) (n_tokens ub),
               cells := upd_range h' (stamp_cell ub) (n_tokens ub) (cells s)\<rparr>"
    have r: "find_slot s ub = Inr (?info, ?s')"
      using False T sc(1) assms(1) st a32 by (simp add: find_slot_def find_slot_transformer_def)
    have nr: "\<not> no_run (cells s) (size_kv s) (n_tokens ub)"
      using fr by (auto simp: no_run_def first_run_def)
    show ?thesis
      using r fr nr sc(1,4) T False
      by (intro exI[of _ ?info] exI[of _ ?s']) (simp add: slot_info_range_def)
  qed
qed

text \<open>
  Claim C2, amended. In non-recurrent mode, on a cache with \<open>head \<le> size < 2^31\<close> and a
  well-formed batch, \<open>find_slot\<close> returns. It fails iff \<open>n_tokens > size\<close> or no run of
  \<open>n_tokens\<close> consecutive cells with \<open>pos < 0\<close> exists, and then only \<open>head\<close> may have
  changed; with \<open>n_tokens > size\<close> nothing changes. Otherwise the new \<open>head\<close> starts the
  first such run met from the old \<open>head\<close> to the end of the pool and then from cell \<open>0\<close>;
  the cell \<open>head + k\<close> gets \<open>pos = ubatch.pos[k]\<close> and the sequence ids of its group
  \<open>k div n_seq_tokens\<close> added to its set, for every \<open>k < n_tokens\<close>, and no other cell
  changes; \<open>used\<close> grows by \<open>n_tokens\<close> (as a 32-bit sum); the span returned is
  \<open>(head, head + n_tokens)\<close>. With \<open>n_tokens \<le> size\<close> the search is a sequence of iterations
  from \<open>(head, 0)\<close>, each of which follows \<open>scan_rule\<close>: with fewer than \<open>n_tokens\<close> cells
  ahead the cursor moves back to cell \<open>0\<close>; on a mismatch at offset \<open>i\<close> (the first occupied
  cell of the window) the cursor and the count of tested cells advance by \<open>i + 1\<close>, and the
  search fails there once the count has reached \<open>size\<close>. The result of \<open>find_slot\<close> and the
  \<open>head\<close> it leaves are those of the iteration that ends the search. The cursor moves back
  to cell \<open>0\<close> at most twice, and at most once when a run is found.
\<close>

theorem find_slot_transformer_spec:
  assumes "\<not> recurrent s" and "wf_cache s" and "head s \<le> size_kv s" and "size_kv s < 2147483648"
    and "ubatch_ok ub"
  shows "\<exists>info s'. find_slot s ub = Inr (info, s') \<and>
     (\<not> ok info \<longleftrightarrow> n_tokens ub > size_kv s \<or> no_run (cells s) (size_kv s) (n_tokens ub)) \<and>
     (\<not> ok info \<longrightarrow> s' = s\<lparr>head := head s'\<rparr> \<and> head s' \<le> size_kv s) \<and>
     (n_tokens ub > size_kv s \<longrightarrow> s' = s) \<and>
     (ok info \<longrightarrow>
        first_run (cells s) (size_kv s) (n_tokens ub) (head s) (head s') \<and>
        slot_begin info = head s' \<and> slot_end info = head s' + n_tokens ub \<and>
        s' = s\<lparr>head := head s', used := add32 (used s) (n_tokens ub),
               cells := upd_range (head s') (stamp_cell ub) (n_tokens ub) (cells s)\<rparr>) \<and>
     (n_tokens ub \<le> size_kv s \<longrightarrow>
        (\<forall>k. wrap_count (cells s) (size_kv s) (n_tokens ub) (head s, 0) k \<le> (if ok info then 1 else 2)) \<and>
        (\<forall>k st. scan_iter (cells s) (size_kv s) (n_tokens ub) (head s, 0) k = Inr st \<longrightarrow>
           scan_rule (cells s) (size_kv s) (n_tokens ub) st
             (scan_iter (cells s) (size_kv s) (n_tokens ub) (head s, 0) (Suc k))) \<and>
        (\<exists>k. scan_iter (cells s) (size_kv s) (n_tokens ub) (head s, 0) k = Inl (ok info, head s')))"
proof -
  from find_slot_transformer_core[OF assms] obtain info s' where
    c: "find_slot s ub = Inr (info, s')"
       "\<not> ok info \<longleftrightarrow> n_tokens ub > size_kv s \<or> no_run (cells s) (size_kv s) (n_tokens ub)"
       "\<not> ok info \<longrightarrow> s' = s\<lparr>head := head s'\<rparr> \<and> head s' \<le> size_kv s"
       "ok info \<longrightarrow>
          first_run (cells s) (size_kv s) (n_tokens ub) (head s) (head s') \<and>
          slot_begin info = head s' \<and> slot_end info = head s' + n_tokens ub \<and>
          s' = s\<lparr>head := head s', used := add32 (used s) (n_tokens ub),
                 cells := upd_range (head s') (stamp_cell ub) (n_tokens ub) (cells s)\<rparr>"
       "n_tokens ub \<le> size_kv s \<longrightarrow>
          (\<forall>k. wrap_count (cells s) (size_kv s) (n_tokens ub) (head s, 0) k \<le> (if ok info then 1 else 2))"
       "n_tokens ub > size_kv s \<longrightarrow> s' = s"
       "n_tokens ub \<le> size_kv s \<longrightarrow>
          find_slot_scan (cells s) (size_kv s) (n_tokens ub) (head s, 0) = Some (ok info, head s')"
    by blast
  have tr: "\<forall>k st. scan_iter (cells s) (size_kv s) (n_tokens ub) (head s, 0) k = Inr st \<longrightarrow>
           scan_rule (cells s) (size_kv s) (n_tokens ub) st
             (scan_iter (cells s) (size_kv s) (n_tokens ub) (head s, 0) (Suc k))"
    using scan_iter_rule by blast
  have res: "n_tokens ub \<le> size_kv s \<longrightarrow>
      (\<exists>k. scan_iter (cells s) (size_kv s) (n_tokens ub) (head s, 0) k = Inl (ok info, head s'))"
    using c(7) scan_result_trace by blast
  show ?thesis
    apply (rule exI[of _ info])
    apply (rule exI[of _ s'])
    using c(1-6) tr res by blast
qed

lemma upt_3: "[0..<3] = [0, 1, 2]" by (simp add: upt_rec)

lemmas find_slot_eval =
  find_slot_def find_slot_transformer_def find_slot_scan.simps scan_step_def stamp_all_def
  stamp_token_def arr_at_def cell_at_def set_cell_def seq_id_at_def add32_def default_cell_def
  slot_info_range_def slot_info_failed_def upt_1 upt_2 upt_3 cell0_def

lemma replicate_numeral: "replicate (numeral k) x = x # replicate (pred_numeral k) x"
  by (simp add: numeral_eq_Suc)

lemma run_cache3_a:
  "find_slot (init False 3) (ub_tok 0) = Inr (slot_info_range 0 1,
     \<lparr>has_shift = False, do_defrag = False, recurrent = False, head = 0, size_kv = 3,
      used = 1, n_kv = 0, cells = [cell0 0, default_cell, default_cell]\<rparr>)"
  by (simp add: find_slot_eval init_def ub_tok_def replicate_numeral)

lemma run_cache3_b:
  "find_slot \<lparr>has_shift = False, do_defrag = False, recurrent = False, head = 0, size_kv = 3,
      used = 1, n_kv = 0, cells = [cell0 0, default_cell, default_cell]\<rparr> (ub_tok 1) =
   Inr (slot_info_range 1 2,
     \<lparr>has_shift = False, do_defrag = False, recurrent = False, head = 1, size_kv = 3,
      used = 2, n_kv = 0, cells = [cell0 0, cell0 1, default_cell]\<rparr>)"
  by (simp add: find_slot_eval ub_tok_def)

lemma run_cache3_c:
  "find_slot \<lparr>has_shift = False, do_defrag = False, recurrent = False, head = 1, size_kv = 3,
      used = 2, n_kv = 0, cells = [cell0 0, cell0 1, default_cell]\<rparr> (ub_tok 2) =
   Inr (slot_info_range 2 3, cache3)"
  by (simp add: find_slot_eval ub_tok_def cache3_def)

lemma run_cache3:
  "run [Find_Slot (ub_tok 0), Find_Slot (ub_tok 1), Find_Slot (ub_tok 2)] (init False 3) = Inr cache3"
  by (simp only: run_Cons run_Nil apply_operation.simps run_cache3_a run_cache3_b run_cache3_c
        bind_res_simps prod.case)

lemma cache3_fail:
  "find_slot cache3 (ub_toks [3, 4, 5]) = Inr (slot_info_failed, cache3\<lparr>head := 1\<rparr>)"
  by (simp add: find_slot_eval ub_toks_def cache3_def)

lemma cache3_iter:
  "scan_iter (cells cache3) 3 3 (2, 0) 0 = Inr (2, 0)"
  "scan_iter (cells cache3) 3 3 (2, 0) (Suc 0) = Inr (0, 1)"
  "scan_iter (cells cache3) 3 3 (2, 0) (Suc (Suc 0)) = Inr (1, 2)"
  "scan_iter (cells cache3) 3 3 (2, 0) (Suc (Suc (Suc 0))) = Inr (0, 4)"
  "scan_iter (cells cache3) 3 3 (2, 0) (Suc (Suc (Suc (Suc 0)))) = Inl (False, 1)"
  by (simp_all add: scan_step_def cache3_def cell0_def upt_3)

text \<open>
  Claim C2 as stated fails where it says that the scan wraps at most once. After three
  calls of \<open>find_slot\<close> with one token each on a pool of three cells, the pool is full and
  \<open>head = 2\<close>. A call with three tokens then moves the cursor back to cell \<open>0\<close> in its first
  iteration (\<open>2 + 3 > 3\<close>), tests cell \<open>0\<close>, moves on to cell \<open>1\<close>, moves back to cell \<open>0\<close>
  again in its third iteration (\<open>1 + 3 > 3\<close>), tests cell \<open>0\<close> a second time and fails.
\<close>

theorem find_slot_wraps_counterexample:
  "\<exists>s info s'. run [Find_Slot (ub_tok 0), Find_Slot (ub_tok 1), Find_Slot (ub_tok 2)] (init False 3) = Inr s \<and>
     find_slot s (ub_toks [3, 4, 5]) = Inr (info, s') \<and> \<not> ok info \<and>
     scan_iter (cells s) (size_kv s) 3 (head s, 0) 0 = Inr (2, 0) \<and>
     scan_iter (cells s) (size_kv s) 3 (head s, 0) 1 = Inr (0, 1) \<and>
     scan_iter (cells s) (size_kv s) 3 (head s, 0) 2 = Inr (1, 2) \<and>
     scan_iter (cells s) (size_kv s) 3 (head s, 0) 3 = Inr (0, 4) \<and>
     wraps_at (cells s) (size_kv s) 3 (head s, 0) 0 \<and>
     wraps_at (cells s) (size_kv s) 3 (head s, 0) 2 \<and>
     wrap_count (cells s) (size_kv s) 3 (head s, 0) 3 = 2"
proof -
  have h: "head cache3 = 2" "size_kv cache3 = 3" by (simp_all add: cache3_def)
  have it: "scan_iter (cells cache3) 3 3 (2, 0) 1 = Inr (0, 1)"
    "scan_iter (cells cache3) 3 3 (2, 0) 2 = Inr (1, 2)"
    "scan_iter (cells cache3) 3 3 (2, 0) 3 = Inr (0, 4)"
    using cache3_iter(2,3,4) by (simp_all add: numeral_2_eq_2 numeral_3_eq_3)
  have w0: "wraps_at (cells cache3) 3 3 (2, 0) 0" using cache3_iter(1) by (simp add: wraps_at_def)
  have w1: "\<not> wraps_at (cells cache3) 3 3 (2, 0) 1" using it(1) by (simp add: wraps_at_def)
  have w2: "wraps_at (cells cache3) 3 3 (2, 0) 2" using it(2) by (simp add: wraps_at_def)
  have wc: "wrap_count (cells cache3) 3 3 (2, 0) 3 = 2"
    using w0 w1 w2 by (simp add: wrap_count_def upt_3)
  show ?thesis
    apply (rule exI[of _ cache3])
    apply (rule exI[of _ slot_info_failed])
    apply (rule exI[of _ "cache3\<lparr>head := 1\<rparr>"])
    using run_cache3 cache3_fail cache3_iter(1) it w0 w2 wc
    by (simp add: h slot_info_failed_def)
qed

lemma ub_tok_ok: "ubatch_ok (ub_tok p)"
  by (simp add: ubatch_ok_def ub_tok_def)

theorem find_slot_transformer_spec_witness:
  "\<not> recurrent (init False 3) \<and> wf_cache (init False 3) \<and> head (init False 3) \<le> size_kv (init False 3) \<and>
   size_kv (init False 3) < 2147483648 \<and> ubatch_ok (ub_tok 0) \<and>
   (\<exists>info s'. find_slot (init False 3) (ub_tok 0) = Inr (info, s') \<and> ok info \<and>
      slot_begin info = 0 \<and> slot_end info = 1 \<and> head s' = 0 \<and> used s' = 1 \<and>
      first_run (cells (init False 3)) 3 1 0 0 \<and>
      cells s' = upd_range 0 (stamp_cell (ub_tok 0)) 1 (cells (init False 3)) \<and>
      cells s' = [cell0 0, default_cell, default_cell])"
proof -
  have a: "\<not> recurrent (init False 3)" "wf_cache (init False 3)" "head (init False 3) \<le> size_kv (init False 3)"
    "size_kv (init False 3) < 2147483648"
    by (simp_all add: init_def wf_cache_def)
  have f: "head (init False 3) = 0" "size_kv (init False 3) = 3" "used (init False 3) = 0" "n_tokens (ub_tok 0) = 1"
    by (simp_all add: init_def ub_tok_def)
  from find_slot_transformer_spec[OF a ub_tok_ok[of 0]] run_cache3_a
  have "first_run (cells (init False 3)) 3 1 0 0 \<and>
     cells \<lparr>has_shift = False, do_defrag = False, recurrent = False, head = 0, size_kv = 3,
      used = 1, n_kv = 0, cells = [cell0 0, default_cell, default_cell]\<rparr> =
     upd_range 0 (stamp_cell (ub_tok 0)) 1 (cells (init False 3))"
    by (auto simp: f slot_info_range_def)
  then show ?thesis using a ub_tok_ok[of 0] run_cache3_a by (simp add: slot_info_range_def)
qed

text \<open>
  Claim C3, amended. When \<open>find_slot\<close> fails in non-recurrent mode, every cell and the
  members \<open>used\<close>, \<open>n\<close>, \<open>has_shift\<close> and \<open>do_defrag\<close> are as before the call. \<open>head\<close> is as
  before when \<open>n_tokens > size\<close>; otherwise it is where the search stopped.
\<close>

theorem find_slot_failure_frame:
  assumes "\<not> recurrent s" and "find_slot s ub = Inr (info, s')" and "\<not> ok info"
  shows "cells s' = cells s \<and> used s' = used s \<and> n_kv s' = n_kv s \<and> has_shift s' = has_shift s \<and>
         do_defrag s' = do_defrag s \<and> size_kv s' = size_kv s \<and> s' = s\<lparr>head := head s'\<rparr> \<and>
         (n_tokens ub > size_kv s \<longrightarrow> s' = s)"
proof (cases "n_tokens ub > size_kv s")
  case True
  then have "s' = s" using assms(1,2) by (simp add: find_slot_def find_slot_transformer_def)
  then show ?thesis by simp
next
  case False
  show ?thesis
  proof (cases "find_slot_scan (cells s) (size_kv s) (n_tokens ub) (head s, 0)")
    case None
    then show ?thesis using False assms(1,2) by (simp add: find_slot_def find_slot_transformer_def)
  next
    case (Some r)
    obtain found h where r: "r = (found, h)" by (cases r)
    show ?thesis
    proof (cases found)
      case F: False
      then have "s' = s\<lparr>head := h\<rparr>"
        using False Some r assms(1,2) by (simp add: find_slot_def find_slot_transformer_def)
      then show ?thesis using False by simp
    next
      case True
      then have "bind_res (stamp_all ub (s\<lparr>head := h\<rparr>)) (\<lambda>s'.
                      Inr (slot_info_range (head s') (add32 (head s') (n_tokens ub)),
                           s'\<lparr>used := add32 (used s') (n_tokens ub)\<rparr>)) = Inr (info, s')"
        using False Some r assms(1,2) by (simp add: find_slot_def find_slot_transformer_def)
      then obtain x where "Inr (slot_info_range (head x) (add32 (head x) (n_tokens ub)),
                           x\<lparr>used := add32 (used x) (n_tokens ub)\<rparr>) = (Inr (info, s') :: error + slot_info \<times> llama_kv_cache)"
        unfolding bind_res_eq_Inr by (elim exE conjE)
      then have "info = slot_info_range (head x) (add32 (head x) (n_tokens ub))" by simp
      then have "ok info" by (simp add: slot_info_range_def)
      then show ?thesis using assms(3) by simp
    qed
  qed
qed

lemma cache1_fail: "find_slot (cache1 0) (ub_tok 0) = Inr (slot_info_failed, (cache1 0)\<lparr>head := 1\<rparr>)"
  by (simp add: find_slot_eval cache1_def ub_tok_def)

theorem find_slot_failure_frame_witness:
  "\<not> recurrent (cache1 0) \<and> find_slot (cache1 0) (ub_tok 0) = Inr (slot_info_failed, (cache1 0)\<lparr>head := 1\<rparr>) \<and>
   \<not> ok slot_info_failed \<and> cells ((cache1 0)\<lparr>head := 1\<rparr>) = cells (cache1 0) \<and>
   used ((cache1 0)\<lparr>head := 1\<rparr>) = used (cache1 0)"
proof -
  have a: "\<not> recurrent (cache1 0)" by (simp add: cache1_def)
  have b: "\<not> ok slot_info_failed" by (simp add: slot_info_failed_def)
  from find_slot_failure_frame[OF a cache1_fail b] a b cache1_fail show ?thesis by simp
qed

text \<open>
  Claim C3 as stated fails for \<open>head\<close>: on a full pool of one cell, a failing \<open>find_slot\<close>
  leaves \<open>head = 1\<close> where it was \<open>0\<close>.
\<close>

theorem find_slot_failure_counterexample:
  "\<exists>s info s'. run [Find_Slot (ub_tok 0)] (init False 1) = Inr s \<and>
     find_slot s (ub_tok 0) = Inr (info, s') \<and> \<not> ok info \<and> head s = 0 \<and> head s' = 1"
proof -
  have a: "run [Find_Slot (ub_tok 0)] (init False 1) = Inr (cache1 0)"
    by (simp only: run_find_slot1 run_Nil)
  show ?thesis
    apply (rule exI[of _ "cache1 0"])
    apply (rule exI[of _ slot_info_failed])
    apply (rule exI[of _ "(cache1 0)\<lparr>head := 1\<rparr>"])
    using a cache1_fail by (simp add: slot_info_failed_def cache1_def)
qed

lemmas find_slot_recurrent_eval =
  find_slot_def find_slot_recurrent_def check_seq_ids_def check_seq_id_def find_tail_def
  gather_def update_pos_def set_tails_def arr_at_def cell_at_def set_cell_def seq_id_at_def
  u32_def i32_def dec32_def default_cell_def slot_info_of_bool_def slot_info_failed_def
  has_seq_id_def is_empty_def i32_result_def in_i32_def upt_1 upt_2 upt_3 Let_def

lemma next_empty_loop_unfold:
  "next_empty_loop st (numeral k) nx =
     (let nx1 = (if nx \<ge> size_kv st then nx - size_kv st else nx) in
      bind_res (cell_at st (int nx1)) (\<lambda>cell.
        if is_empty cell then Inr nx1 else next_empty_loop st (pred_numeral k) (nx1 + 1)))"
  by (simp add: numeral_eq_Suc)

lemma rec_find_slot: "find_slot (init True 2) (ub_tok 0) = Inr (slot_info_of_bool True, rcache1)"
  by (simp add: find_slot_recurrent_eval init_def ub_tok_def rcache1_def replicate_numeral
        next_empty_loop_unfold)

lemma rec_seq_rm: "seq_rm rcache1 (- 1) (- 1) (- 1) = Inr (True, rcache2)"
  by (simp add: seq_rm_def seq_rm_recurrent_def seq_rm_step_def norm_p0_def norm_p1_def
        llama_pos_max_def rcache1_def rcache2_def default_cell_def is_empty_def dec32_def upt_2 Let_def)

lemma rec_find_slot_abort: "find_slot rcache2 (ub_tok 1) = Inl Assert_Failed"
  by (simp add: find_slot_recurrent_eval ub_tok_def rcache2_def next_empty_loop_unfold)

text \<open>
  Claim C4: code defect. In recurrent mode \<open>seq_rm\<close> with a negative sequence id and the
  range of everything empties every cell but leaves the \<open>tail\<close> of every sequence in
  place, where the branch for a sequence id \<open>\<ge> 0\<close> invalidates it. After one token of
  sequence \<open>0\<close> and \<open>seq_rm(-1, -1, -1)\<close>, \<open>cells[0].tail\<close> is \<open>0\<close> and cell \<open>0\<close> does not contain
  sequence \<open>0\<close>; the next \<open>find_slot\<close> for sequence \<open>0\<close> stops at
  \<open>GGML_ASSERT(cell.has_seq_id(seq_id))\<close>.
\<close>

theorem seq_rm_all_leaves_tail:
  "\<exists>s. run [Find_Slot (ub_tok 0), Seq_Rm (- 1) (- 1) (- 1)] (init True 2) = Inr s \<and>
       recurrent s \<and> tail (cells s ! 0) = 0 \<and> seq_id (cells s ! nat (tail (cells s ! 0))) = {} \<and>
       \<not> has_seq_id (cells s ! nat (tail (cells s ! 0))) 0 \<and>
       run [Find_Slot (ub_tok 0), Seq_Rm (- 1) (- 1) (- 1), Find_Slot (ub_tok 1)] (init True 2) =
         Inl Assert_Failed"
proof -
  have a: "run [Find_Slot (ub_tok 0), Seq_Rm (- 1) (- 1) (- 1)] (init True 2) = Inr rcache2"
    by (simp only: run_Cons run_Nil apply_operation.simps rec_find_slot rec_seq_rm bind_res_simps prod.case)
  have b: "run [Find_Slot (ub_tok 0), Seq_Rm (- 1) (- 1) (- 1), Find_Slot (ub_tok 1)] (init True 2) =
         Inl Assert_Failed"
    by (simp only: run_Cons run_Nil apply_operation.simps rec_find_slot rec_seq_rm rec_find_slot_abort
          bind_res_simps prod.case)
  have c: "recurrent rcache2" "tail (cells rcache2 ! 0) = 0" "seq_id (cells rcache2 ! 0) = {}"
    by (simp_all add: rcache2_def)
  show ?thesis using a b c by (intro exI[of _ rcache2]) (simp add: has_seq_id_def)
qed

text \<open>Counting occupied cells.\<close>

lemma occupied_fields [simp]:
  "occupied (s\<lparr>used := u\<rparr>) = occupied s"
  "occupied (s\<lparr>head := h\<rparr>) = occupied s"
  "occupied (s\<lparr>has_shift := b\<rparr>) = occupied s"
  by (simp_all add: occupied_def)

lemma filter_update_length:
  assumes "i < length xs"
  shows "length (filter P (xs[i := y])) + (if P (xs ! i) then 1 else 0) =
         length (filter P xs) + (if P y then 1 else 0)"
proof -
  have xs: "xs = take i xs @ xs ! i # drop (Suc i) xs" using assms by (simp add: id_take_nth_drop)
  have up: "xs[i := y] = take i xs @ y # drop (Suc i) xs" using assms by (simp add: upd_conv_take_nth_drop)
  have "length (filter P xs) = length (filter P (take i xs)) + (if P (xs ! i) then 1 else 0) +
          length (filter P (drop (Suc i) xs))"
    by (subst xs) simp
  moreover have "length (filter P (xs[i := y])) = length (filter P (take i xs)) + (if P y then 1 else 0) +
          length (filter P (drop (Suc i) xs))"
    by (subst up) simp
  ultimately show ?thesis by simp
qed

lemma occupied_update:
  assumes "i < length (cells s)"
  shows "occupied (s\<lparr>cells := (cells s)[i := c]\<rparr>) + (if 0 \<le> pos (cells s ! i) then 1 else 0) =
         occupied s + (if 0 \<le> pos c then 1 else 0)"
  using filter_update_length[OF assms, of "\<lambda>c. 0 \<le> pos c" c] by (simp add: occupied_def)

lemma occupied_same:
  assumes "i < length (cells s)" "(0 \<le> pos c) = (0 \<le> pos (cells s ! i))"
  shows "occupied (s\<lparr>cells := (cells s)[i := c]\<rparr>) = occupied s"
  using occupied_update[OF assms(1), of c] assms(2) by simp

lemma occupied_evict:
  assumes "i < length (cells s)" "0 \<le> pos (cells s ! i)" "pos c < 0" "used s = occupied s"
  shows "dec32 (used s) = occupied (s\<lparr>cells := (cells s)[i := c]\<rparr>)"
  using occupied_update[OF assms(1), of c] assms(2,3,4) by (simp add: dec32_def)

lemma occupied_le: "occupied s \<le> length (cells s)"
  by (simp add: occupied_def)

lemma fold_upt_invariant:
  assumes "P s0" and "\<And>i s. i < n \<Longrightarrow> P s \<Longrightarrow> P (f i s)"
  shows "P (fold f [0..<n] s0)"
  using assms(2)
proof (induction n)
  case 0
  then show ?case using assms(1) by simp
next
  case (Suc n)
  have "P (fold f [0..<n] s0)" using Suc by simp
  then have "P (f n (fold f [0..<n] s0))" using Suc.prems by simp
  then show ?case by simp
qed

lemma fold_res_upt_invariant:
  assumes "P s0" and "\<And>i s. i < n \<Longrightarrow> P s \<Longrightarrow> (\<exists>s'. f i s = Inr s' \<and> P s') \<or> f i s = Inl e"
  shows "(\<exists>s'. fold_res f [0..<n] s0 = Inr s' \<and> P s') \<or> fold_res f [0..<n] s0 = Inl e"
  using assms(2)
proof (induction n)
  case 0
  then show ?case using assms(1) by simp
next
  case (Suc n)
  have ih: "(\<exists>s'. fold_res f [0..<n] s0 = Inr s' \<and> P s') \<or> fold_res f [0..<n] s0 = Inl e"
    using Suc by simp
  show ?case
  proof (cases "fold_res f [0..<n] s0")
    case (Inl a)
    then show ?thesis using ih by (simp add: fold_res_snoc)
  next
    case (Inr s1)
    then have "P s1" using ih by simp
    from Suc.prems[OF _ this, of n] show ?thesis using Inr by (simp add: fold_res_snoc)
  qed
qed

lemma cnt_inv_head [simp]: "cnt_inv N (s\<lparr>head := h\<rparr>) = cnt_inv N s"
  by (simp add: cnt_inv_def)

lemma cnt_inv_shift [simp]: "cnt_inv N (s\<lparr>has_shift := b\<rparr>) = cnt_inv N s"
  by (simp add: cnt_inv_def)

lemma cnt_inv_same:
  assumes "cnt_inv N s" "i < N" "(0 \<le> pos c) = (0 \<le> pos (cells s ! i))"
  shows "cnt_inv N (s\<lparr>cells := (cells s)[i := c]\<rparr>)"
proof -
  have i: "i < length (cells s)" using assms(1,2) by (simp add: cnt_inv_def)
  show ?thesis
    using assms(1,3) filter_update_length[OF i, of "\<lambda>c. 0 \<le> pos c" c]
    by (simp add: cnt_inv_def occupied_def)
qed

lemma cnt_inv_evict:
  assumes "cnt_inv N s" "i < N" "0 \<le> pos (cells s ! i)" "pos c < 0"
  shows "cnt_inv N (s\<lparr>used := dec32 (used s), cells := (cells s)[i := c]\<rparr>)"
proof -
  have i: "i < length (cells s)" using assms(1,2) by (simp add: cnt_inv_def)
  have e: "length (filter (\<lambda>c. 0 \<le> pos c) (cells s)) =
           Suc (length (filter (\<lambda>c. 0 \<le> pos c) ((cells s)[i := c])))"
    using assms(3,4) filter_update_length[OF i, of "\<lambda>c. 0 \<le> pos c" c] by simp
  have "dec32 (used s) = length (filter (\<lambda>c. 0 \<le> pos c) ((cells s)[i := c]))"
    using assms(1) e by (simp add: cnt_inv_def occupied_def dec32_def)
  then show ?thesis using assms(1) by (simp add: cnt_inv_def occupied_def)
qed

text \<open>\<open>seq_rm\<close>\<close>

lemma seq_rm_step_inv:
  assumes "cnt_inv N s" "i < N"
  shows "cnt_inv N (fst (seq_rm_step sid p0 p1 i (s, nh))) \<and>
         head (fst (seq_rm_step sid p0 p1 i (s, nh))) = head s"
proof -
  let ?c = "cells s ! i"
  let ?c1 = "if sid < 0 then ?c\<lparr>seq_id := {}\<rparr> else ?c\<lparr>seq_id := seq_id ?c - {sid}\<rparr>"
  show ?thesis
  proof (cases "pos ?c \<ge> p0 \<and> pos ?c < p1 \<and> (sid < 0 \<or> has_seq_id ?c sid)")
    case False
    then have "seq_rm_step sid p0 p1 i (s, nh) = (s, nh)"
      by (auto simp: seq_rm_step_def Let_def)
    then show ?thesis using assms by simp
  next
    case True
    show ?thesis
    proof (cases "is_empty ?c1")
      case E: False
      then have "seq_rm_step sid p0 p1 i (s, nh) = (s\<lparr>cells := (cells s)[i := ?c1]\<rparr>, nh)"
        using True by (auto simp: seq_rm_step_def Let_def)
      moreover have "cnt_inv N (s\<lparr>cells := (cells s)[i := ?c1]\<rparr>)"
        by (rule cnt_inv_same[OF assms]) simp
      ultimately show ?thesis by simp
    next
      case E: True
      show ?thesis
      proof (cases "0 \<le> pos ?c")
        case P: True
        have "seq_rm_step sid p0 p1 i (s, nh) =
            (s\<lparr>used := dec32 (used s), cells := (cells s)[i := ?c1\<lparr>pos := -1, src := -1\<rparr>]\<rparr>,
             if nh = size_kv s then i else nh)"
          using True E P by (auto simp: seq_rm_step_def Let_def)
        moreover have "cnt_inv N (s\<lparr>used := dec32 (used s), cells := (cells s)[i := ?c1\<lparr>pos := -1, src := -1\<rparr>]\<rparr>)"
          by (rule cnt_inv_evict[OF assms P]) simp
        ultimately show ?thesis by simp
      next
        case P: False
        have "seq_rm_step sid p0 p1 i (s, nh) =
            (s\<lparr>cells := (cells s)[i := ?c1\<lparr>pos := -1, src := -1\<rparr>]\<rparr>,
             if nh = size_kv s then i else nh)"
          using True E P by (auto simp: seq_rm_step_def Let_def)
        moreover have "cnt_inv N (s\<lparr>cells := (cells s)[i := ?c1\<lparr>pos := -1, src := -1\<rparr>]\<rparr>)"
          by (rule cnt_inv_same[OF assms]) (use P in simp)
        ultimately show ?thesis by simp
      qed
    qed
  qed
qed

lemma seq_rm_inv:
  assumes "cnt_inv N s" "head s \<le> N"
  shows "\<exists>b s'. seq_rm s sid p0 p1 = Inr (b, s') \<and> cnt_inv N s' \<and> head s' \<le> N"
proof -
  let ?f = "seq_rm_step sid (norm_p0 p0) (norm_p1 p1)"
  have nr: "\<not> recurrent s" and sz: "size_kv s = N" using assms(1) by (simp_all add: cnt_inv_def)
  have "cnt_inv N (fst (fold ?f [0..<N] (s, N))) \<and> head (fst (fold ?f [0..<N] (s, N))) = head s"
  proof (rule fold_upt_invariant[where P = "\<lambda>st. cnt_inv N (fst st) \<and> head (fst st) = head s"])
    show "cnt_inv N (fst (s, N)) \<and> head (fst (s, N)) = head s" using assms(1) by simp
  next
    fix i and st :: "llama_kv_cache \<times> nat"
    assume i: "i < N" and p: "cnt_inv N (fst st) \<and> head (fst st) = head s"
    obtain s1 nh where st: "st = (s1, nh)" by (cases st)
    show "cnt_inv N (fst (?f i st)) \<and> head (fst (?f i st)) = head s"
      using seq_rm_step_inv[of N s1 i sid "norm_p0 p0" "norm_p1 p1" nh] p i st by simp
  qed
  moreover obtain s2 nh2 where f: "fold ?f [0..<N] (s, N) = (s2, nh2)"
    by (cases "fold ?f [0..<N] (s, N)")
  ultimately have i2: "cnt_inv N s2" "head s2 = head s" by simp_all
  have "seq_rm s sid p0 p1 =
     Inr (True, if nh2 \<noteq> size_kv s2 \<and> nh2 < head s2 then s2\<lparr>head := nh2\<rparr> else s2)"
    using nr sz f by (simp add: seq_rm_def Let_def)
  moreover have "cnt_inv N (if nh2 \<noteq> size_kv s2 \<and> nh2 < head s2 then s2\<lparr>head := nh2\<rparr> else s2)"
    using i2(1) by simp
  moreover have "head (if nh2 \<noteq> size_kv s2 \<and> nh2 < head s2 then s2\<lparr>head := nh2\<rparr> else s2) \<le> N"
    using i2(2) assms(2) by simp
  ultimately show ?thesis by blast
qed

lemma seq_cp_step_inv:
  assumes "cnt_inv N s" "i < N"
  shows "cnt_inv N (seq_cp_step a b p0 p1 i s) \<and> head (seq_cp_step a b p0 p1 i s) = head s"
proof (cases "has_seq_id (cells s ! i) a \<and> pos (cells s ! i) \<ge> p0 \<and> pos (cells s ! i) < p1")
  case True
  then have "seq_cp_step a b p0 p1 i s =
      s\<lparr>cells := (cells s)[i := (cells s ! i)\<lparr>seq_id := insert b (seq_id (cells s ! i))\<rparr>]\<rparr>"
    by (simp add: seq_cp_step_def Let_def)
  moreover have "cnt_inv N (s\<lparr>cells := (cells s)[i := (cells s ! i)\<lparr>seq_id := insert b (seq_id (cells s ! i))\<rparr>]\<rparr>)"
    by (rule cnt_inv_same[OF assms]) simp
  ultimately show ?thesis by simp
next
  case False
  then have "seq_cp_step a b p0 p1 i s = s" by (auto simp: seq_cp_step_def Let_def)
  then show ?thesis using assms by simp
qed

lemma seq_cp_inv:
  assumes "cnt_inv N s" "head s \<le> N"
  shows "\<exists>s'. seq_cp s a b p0 p1 = Inr s' \<and> cnt_inv N s' \<and> head s' \<le> N"
proof (cases "a = b")
  case True
  then have "seq_cp s a b p0 p1 = Inr s" by (simp add: seq_cp_def)
  then show ?thesis using assms by blast
next
  case False
  let ?f = "seq_cp_step a b (norm_p0 p0) (norm_p1 p1)"
  have nr: "\<not> recurrent s" and sz: "size_kv s = N" using assms(1) by (simp_all add: cnt_inv_def)
  have "cnt_inv N (fold ?f [0..<N] (s\<lparr>head := 0\<rparr>)) \<and> head (fold ?f [0..<N] (s\<lparr>head := 0\<rparr>)) = 0"
  proof (rule fold_upt_invariant[where P = "\<lambda>st. cnt_inv N st \<and> head st = 0"])
    show "cnt_inv N (s\<lparr>head := 0\<rparr>) \<and> head (s\<lparr>head := 0\<rparr>) = 0" using assms(1) by simp
  next
    fix i st assume "i < N" "cnt_inv N st \<and> head st = 0"
    then show "cnt_inv N (?f i st) \<and> head (?f i st) = 0"
      using seq_cp_step_inv[of N st i a b "norm_p0 p0" "norm_p1 p1"] by simp
  qed
  moreover have "seq_cp s a b p0 p1 = Inr (fold ?f [0..<N] (s\<lparr>head := 0\<rparr>))"
    using False nr sz by (simp add: seq_cp_def Let_def)
  ultimately show ?thesis by simp
qed

text \<open>\<open>seq_keep\<close>\<close>

lemma seq_keep_step_inv:
  assumes "cnt_inv N s" "i < N"
  shows "cnt_inv N (fst (seq_keep_step sid i (s, nh))) \<and> head (fst (seq_keep_step sid i (s, nh))) = head s"
proof -
  have nr: "\<not> recurrent s" using assms(1) by (simp add: cnt_inv_def)
  let ?c = "cells s ! i"
  show ?thesis
  proof (cases "has_seq_id ?c sid")
    case True
    then have "seq_keep_step sid i (s, nh) = (s\<lparr>cells := (cells s)[i := ?c\<lparr>seq_id := {sid}\<rparr>]\<rparr>, nh)"
      using nr by (simp add: seq_keep_step_def Let_def)
    moreover have "cnt_inv N (s\<lparr>cells := (cells s)[i := ?c\<lparr>seq_id := {sid}\<rparr>]\<rparr>)"
      by (rule cnt_inv_same[OF assms]) simp
    ultimately show ?thesis by simp
  next
    case False
    show ?thesis
    proof (cases "0 \<le> pos ?c")
      case P: True
      have "seq_keep_step sid i (s, nh) =
          (s\<lparr>used := dec32 (used s), cells := (cells s)[i := ?c\<lparr>pos := -1, src := -1, seq_id := {}\<rparr>]\<rparr>,
           if nh = size_kv s then i else nh)"
        using nr False P by (simp add: seq_keep_step_def Let_def)
      moreover have "cnt_inv N (s\<lparr>used := dec32 (used s), cells := (cells s)[i := ?c\<lparr>pos := -1, src := -1, seq_id := {}\<rparr>]\<rparr>)"
        by (rule cnt_inv_evict[OF assms P]) simp
      ultimately show ?thesis by simp
    next
      case P: False
      have "seq_keep_step sid i (s, nh) =
          (s\<lparr>cells := (cells s)[i := ?c\<lparr>pos := -1, src := -1, seq_id := {}\<rparr>]\<rparr>,
           if nh = size_kv s then i else nh)"
        using nr False P by (simp add: seq_keep_step_def Let_def)
      moreover have "cnt_inv N (s\<lparr>cells := (cells s)[i := ?c\<lparr>pos := -1, src := -1, seq_id := {}\<rparr>]\<rparr>)"
        by (rule cnt_inv_same[OF assms]) (use P in simp)
      ultimately show ?thesis by simp
    qed
  qed
qed

lemma seq_keep_inv:
  assumes "cnt_inv N s" "head s \<le> N"
  shows "cnt_inv N (seq_keep s sid) \<and> head (seq_keep s sid) \<le> N"
proof -
  let ?f = "seq_keep_step sid"
  have sz: "size_kv s = N" using assms(1) by (simp add: cnt_inv_def)
  have "cnt_inv N (fst (fold ?f [0..<N] (s, N))) \<and> head (fst (fold ?f [0..<N] (s, N))) = head s"
  proof (rule fold_upt_invariant[where P = "\<lambda>st. cnt_inv N (fst st) \<and> head (fst st) = head s"])
    show "cnt_inv N (fst (s, N)) \<and> head (fst (s, N)) = head s" using assms(1) by simp
  next
    fix i and st :: "llama_kv_cache \<times> nat"
    assume i: "i < N" and p: "cnt_inv N (fst st) \<and> head (fst st) = head s"
    obtain s1 nh where st: "st = (s1, nh)" by (cases st)
    show "cnt_inv N (fst (?f i st)) \<and> head (fst (?f i st)) = head s"
      using seq_keep_step_inv[of N s1 i sid nh] p i st by simp
  qed
  moreover obtain s2 nh2 where f: "fold ?f [0..<N] (s, N) = (s2, nh2)"
    by (cases "fold ?f [0..<N] (s, N)")
  ultimately have i2: "cnt_inv N s2" "head s2 = head s" by simp_all
  have "seq_keep s sid = (if nh2 \<noteq> size_kv s2 \<and> nh2 < head s2 then s2\<lparr>head := nh2\<rparr> else s2)"
    using sz f by (simp add: seq_keep_def Let_def)
  then show ?thesis using i2 assms(2) by simp
qed

text \<open>\<open>seq_add\<close>\<close>

lemma seq_add_step_inv:
  assumes "cnt_inv N s" "i < N" "0 \<le> p0" "nh \<le> N"
  shows "(\<exists>s' nh'. seq_add_step sid p0 p1 d i (s, nh) = Inr (s', nh') \<and> cnt_inv N s' \<and> nh' \<le> N) \<or>
         seq_add_step sid p0 p1 d i (s, nh) = Inl Signed_Overflow"
proof (cases "seq_add_ok sid p0 p1 d (cells s ! i)")
  case False
  then show ?thesis by (simp add: seq_add_step_overflow)
next
  case ok: True
  show ?thesis
  proof (cases "seq_match sid p0 p1 (cells s ! i)")
    case False
    then show ?thesis using assms by (simp add: seq_add_step_alt)
  next
    case True
    then have P: "0 \<le> pos (cells s ! i)" using assms(3) by (simp add: seq_match_def)
    have sz: "size_kv s = N" using assms(1) by (simp add: cnt_inv_def)
    show ?thesis
    proof (cases "pos (cells s ! i) + d < 0")
      case E: True
      have "cnt_inv N (s\<lparr>used := dec32 (used s), cells := (cells s)[i := seq_add_cell sid p0 p1 d (cells s ! i)]\<rparr>)"
        by (rule cnt_inv_evict[OF assms(1,2) P]) (use True E in \<open>simp add: seq_add_cell_def\<close>)
      then have "cnt_inv N (s\<lparr>has_shift := True, used := dec32 (used s),
           cells := (cells s)[i := seq_add_cell sid p0 p1 d (cells s ! i)]\<rparr>)"
        by (simp add: cnt_inv_def occupied_def)
      then show ?thesis using True ok E assms(2,4) sz by (simp add: seq_add_step_alt)
    next
      case E: False
      have "cnt_inv N (s\<lparr>cells := (cells s)[i := seq_add_cell sid p0 p1 d (cells s ! i)]\<rparr>)"
        by (rule cnt_inv_same[OF assms(1,2)]) (use True E P in \<open>simp add: seq_add_cell_def\<close>)
      then have "cnt_inv N (s\<lparr>has_shift := True,
           cells := (cells s)[i := seq_add_cell sid p0 p1 d (cells s ! i)]\<rparr>)"
        by (simp add: cnt_inv_def occupied_def)
      then show ?thesis using True ok E assms(4) by (simp add: seq_add_step_alt)
    qed
  qed
qed

lemma seq_add_inv:
  assumes "cnt_inv N s" "head s \<le> N"
  shows "(\<exists>s'. seq_add s sid p0 p1 d = Inr s' \<and> cnt_inv N s' \<and> head s' \<le> N) \<or>
         seq_add s sid p0 p1 d = Inl Signed_Overflow"
proof (cases "d = 0 \<or> norm_p0 p0 = norm_p1 p1")
  case True
  then have "seq_add s sid p0 p1 d = Inr s" by (auto simp: seq_add_def Let_def)
  then show ?thesis using assms by blast
next
  case False
  let ?f = "seq_add_step sid (norm_p0 p0) (norm_p1 p1) d"
  have nr: "\<not> recurrent s" and sz: "size_kv s = N" using assms(1) by (simp_all add: cnt_inv_def)
  have sa: "seq_add s sid p0 p1 d =
      bind_res (fold_res ?f [0..<N] (s, N)) (\<lambda>(s', nh). Inr (s'\<lparr>head := (if nh \<noteq> N then nh else 0)\<rparr>))"
    using False nr sz by (simp add: seq_add_def Let_def)
  have "(\<exists>st'. fold_res ?f [0..<N] (s, N) = Inr st' \<and> cnt_inv N (fst st') \<and> snd st' \<le> N) \<or>
        fold_res ?f [0..<N] (s, N) = Inl Signed_Overflow"
  proof (rule fold_res_upt_invariant[where P = "\<lambda>st. cnt_inv N (fst st) \<and> snd st \<le> N"])
    show "cnt_inv N (fst (s, N)) \<and> snd (s, N) \<le> N" using assms(1) by simp
  next
    fix i and st :: "llama_kv_cache \<times> nat"
    assume i: "i < N" and p: "cnt_inv N (fst st) \<and> snd st \<le> N"
    obtain s1 nh where st: "st = (s1, nh)" by (cases st)
    show "(\<exists>s'. ?f i st = Inr s' \<and> cnt_inv N (fst s') \<and> snd s' \<le> N) \<or> ?f i st = Inl Signed_Overflow"
      using seq_add_step_inv[of N s1 i "norm_p0 p0" nh sid "norm_p1 p1" d] p i st norm_p0_nonneg[of p0]
      by auto
  qed
  then show ?thesis
  proof
    assume "\<exists>st'. fold_res ?f [0..<N] (s, N) = Inr st' \<and> cnt_inv N (fst st') \<and> snd st' \<le> N"
    then obtain s2 nh2 where f: "fold_res ?f [0..<N] (s, N) = Inr (s2, nh2)" and i2: "cnt_inv N s2" "nh2 \<le> N"
      by auto
    have "seq_add s sid p0 p1 d = Inr (s2\<lparr>head := (if nh2 \<noteq> N then nh2 else 0)\<rparr>)"
      by (simp add: sa f)
    then show ?thesis using i2 by simp
  next
    assume "fold_res ?f [0..<N] (s, N) = Inl Signed_Overflow"
    then show ?thesis by (simp add: sa)
  qed
qed

text \<open>\<open>seq_div\<close> with a positive divisor\<close>

lemma cdiv_nonneg: "0 \<le> a \<Longrightarrow> 1 \<le> b \<Longrightarrow> 0 \<le> cdiv a b"
  by (simp add: cdiv_def sgn_if pos_imp_zdiv_nonneg_iff)

lemma seq_div_cell_occupied:
  assumes "0 \<le> p0" "1 \<le> d"
  shows "(0 \<le> pos (seq_div_cell sid p0 p1 d c)) = (0 \<le> pos c)"
proof (cases "seq_match sid p0 p1 c")
  case True
  then have "0 \<le> pos c" using assms(1) by (simp add: seq_match_def)
  then show ?thesis using True cdiv_nonneg[OF _ assms(2), of "pos c"] by (simp add: seq_div_cell_def)
next
  case False
  then show ?thesis by (simp add: seq_div_cell_def)
qed

lemma seq_div_inv:
  assumes "cnt_inv N s" "head s \<le> N" "1 \<le> d"
  shows "(\<exists>s'. seq_div s sid p0 p1 d = Inr s' \<and> cnt_inv N s' \<and> head s' \<le> N) \<or>
         seq_div s sid p0 p1 d = Inl Signed_Overflow"
proof -
  have nr: "\<not> recurrent s" and wf: "wf_cache s" using assms(1) by (simp_all add: cnt_inv_def wf_cache_def)
  have "d \<noteq> 0" using assms(3) by simp
  from seq_div_cases[OF nr wf this, of sid p0 p1] show ?thesis
  proof
    assume "\<exists>s'. seq_div s sid p0 p1 d = Inr s'"
    then obtain s' where s': "seq_div s sid p0 p1 d = Inr s'" by blast
    from seq_div_Inr[OF nr wf s'] obtain b where
      b: "s' = s\<lparr>has_shift := b, cells := map (seq_div_cell sid (norm_p0 p0) (norm_p1 p1) d) (cells s)\<rparr>" ..
    have "filter (\<lambda>c. 0 \<le> pos c) (map (seq_div_cell sid (norm_p0 p0) (norm_p1 p1) d) (cells s)) =
          map (seq_div_cell sid (norm_p0 p0) (norm_p1 p1) d) (filter (\<lambda>c. 0 \<le> pos c) (cells s))"
      by (simp add: filter_map comp_def seq_div_cell_occupied[OF norm_p0_nonneg assms(3)])
    then have "occupied s' = occupied s" by (simp add: occupied_def b)
    then have "cnt_inv N s'" using assms(1) by (simp add: cnt_inv_def b)
    moreover have "head s' \<le> N" using assms(2) by (simp add: b)
    ultimately show ?thesis using s' by blast
  next
    assume "seq_div s sid p0 p1 d = Inl Signed_Overflow"
    then show ?thesis by simp
  qed
qed

text \<open>\<open>clear\<close>\<close>

lemma i32_small: "n < 2147483648 \<Longrightarrow> i32 (int n) = int n"
  by (simp add: i32_def)

lemma clear_fold:
  "n \<le> length (cells s) \<Longrightarrow>
   fold (\<lambda>i s. s\<lparr>cells := (cells s)[i := (cells s ! i)\<lparr>pos := -1, seq_id := {}, src := -1, tail := -1\<rparr>]\<rparr>) [0..<n] s =
   s\<lparr>cells := map (\<lambda>c. c\<lparr>pos := -1, seq_id := {}, src := -1, tail := -1\<rparr>) (take n (cells s)) @ drop n (cells s)\<rparr>"
proof (induction n)
  case 0
  then show ?case by simp
next
  case (Suc n)
  then have n: "n < length (cells s)" by simp
  have ih: "fold (\<lambda>i s. s\<lparr>cells := (cells s)[i := (cells s ! i)\<lparr>pos := -1, seq_id := {}, src := -1, tail := -1\<rparr>]\<rparr>) [0..<n] s =
   s\<lparr>cells := map (\<lambda>c. c\<lparr>pos := -1, seq_id := {}, src := -1, tail := -1\<rparr>) (take n (cells s)) @ drop n (cells s)\<rparr>"
    using Suc.IH n by simp
  show ?case
    using map_take_upd[OF n, of "\<lambda>c. c\<lparr>pos := -1, seq_id := {}, src := -1, tail := -1\<rparr>"]
      map_take_nth[OF n, of "\<lambda>c. c\<lparr>pos := -1, seq_id := {}, src := -1, tail := -1\<rparr>"]
    by (simp add: ih)
qed

lemma clear_eq:
  assumes "wf_cache s" "size_kv s < 2147483648"
  shows "clear s = s\<lparr>head := 0, used := 0,
                      cells := map (\<lambda>c. c\<lparr>pos := -1, seq_id := {}, src := -1, tail := -1\<rparr>) (cells s)\<rparr>"
proof -
  have len: "length (cells s) = size_kv s" using assms(1) by (simp add: wf_cache_def)
  have n: "nat (i32 (int (size_kv s))) = size_kv s" using assms(2) by (simp add: i32_small)
  show ?thesis using clear_fold[of "size_kv s" s] len by (simp add: clear_def n Let_def)
qed

lemma clear_inv:
  assumes "cnt_inv N s" "N < 2147483648"
  shows "cnt_inv N (clear s) \<and> head (clear s) \<le> N"
proof -
  have wf: "wf_cache s" and sz: "size_kv s = N" using assms(1) by (simp_all add: cnt_inv_def wf_cache_def)
  have "filter (\<lambda>c. 0 \<le> pos c) (map (\<lambda>c. c\<lparr>pos := -1, seq_id := {}, src := -1, tail := -1\<rparr>) (cells s)) = []"
    by (simp add: filter_map comp_def)
  then show ?thesis using assms(1) clear_eq[OF wf] assms(2) sz by (simp add: cnt_inv_def occupied_def)
qed

text \<open>\<open>find_slot\<close> on a batch with positions that are not negative\<close>

lemma occupied_upd_range:
  assumes "h + n \<le> length cs" "\<forall>k<n. pos (cs ! (h + k)) < 0 \<and> 0 \<le> pos (f k (cs ! (h + k)))"
  shows "length (filter (\<lambda>c. 0 \<le> pos c) (upd_range h f n cs)) = length (filter (\<lambda>c. 0 \<le> pos c) cs) + n"
  using assms
proof (induction n)
  case 0
  then show ?case by simp
next
  case (Suc n)
  have len: "h + n < length cs" using Suc.prems(1) by simp
  have ih: "length (filter (\<lambda>c. 0 \<le> pos c) (upd_range h f n cs)) = length (filter (\<lambda>c. 0 \<le> pos c) cs) + n"
    using Suc by simp
  have l2: "h + n < length (upd_range h f n cs)" using len by simp
  have nth: "upd_range h f n cs ! (h + n) = cs ! (h + n)" using len by (simp add: upd_range_nth)
  have a: "pos (cs ! (h + n)) < 0" "0 \<le> pos (f n (cs ! (h + n)))" using Suc.prems(2) by simp_all
  have up: "upd_range h f (Suc n) cs = (upd_range h f n cs)[h + n := f n (cs ! (h + n))]"
    using upd_range_Suc[OF len, of f] nth by simp
  from filter_update_length[OF l2, of "\<lambda>c. 0 \<le> pos c" "f n (cs ! (h + n))"]
  have "length (filter (\<lambda>c. 0 \<le> pos c) (upd_range h f (Suc n) cs)) =
        length (filter (\<lambda>c. 0 \<le> pos c) (upd_range h f n cs)) + 1"
    using a nth by (simp add: up)
  then show ?case using ih by simp
qed

lemma find_slot_inv:
  assumes "cnt_inv N s" "head s \<le> N" "N < 2147483648" "ubatch_ok ub"
    "list_all (\<lambda>p. 0 \<le> p) (take (n_tokens ub) (ub_pos ub))"
  shows "\<exists>info s'. find_slot s ub = Inr (info, s') \<and> cnt_inv N s' \<and> head s' \<le> N"
proof -
  have nr: "\<not> recurrent s" and wf: "wf_cache s" and sz: "size_kv s = N" and len: "length (cells s) = N"
    and u: "used s = occupied s"
    using assms(1) by (simp_all add: cnt_inv_def wf_cache_def)
  from find_slot_transformer_core[OF nr wf _ _ assms(4)] assms(2,3) sz
  obtain info s' where r: "find_slot s ub = Inr (info, s')"
    and f: "\<not> ok info \<longrightarrow> s' = s\<lparr>head := head s'\<rparr> \<and> head s' \<le> size_kv s"
    and t: "ok info \<longrightarrow>
        first_run (cells s) (size_kv s) (n_tokens ub) (head s) (head s') \<and>
        s' = s\<lparr>head := head s', used := add32 (used s) (n_tokens ub),
               cells := upd_range (head s') (stamp_cell ub) (n_tokens ub) (cells s)\<rparr>"
    by auto
  show ?thesis
  proof (cases "ok info")
    case False
    then have e: "s' = s\<lparr>head := head s'\<rparr>" and h: "head s' \<le> N" using f sz by simp_all
    have "cnt_inv N (s\<lparr>head := head s'\<rparr>)" using assms(1) by simp
    then have "cnt_inv N s'" using e by simp
    then show ?thesis using r h by blast
  next
    case True
    let ?h = "head s'" and ?n = "n_tokens ub"
    have fr: "first_run (cells s) N ?n (head s) ?h" using t True sz by simp
    have e: "s' = s\<lparr>head := ?h, used := add32 (used s) ?n,
               cells := upd_range ?h (stamp_cell ub) ?n (cells s)\<rparr>" using t True by simp
    have b: "?h + ?n \<le> N" using fr by (rule first_run_free)
    have free: "\<forall>k<?n. pos (cells s ! (?h + k)) < 0" using fr by (simp add: first_run_def free_run_def)
    have posn: "0 \<le> ub_pos ub ! k" if "k < ?n" for k
    proof -
      have "k < length (take ?n (ub_pos ub))" using that assms(4) by (simp add: ubatch_ok_def)
      then have "0 \<le> take ?n (ub_pos ub) ! k" using assms(5) by (simp add: list_all_length)
      then show ?thesis using that by simp
    qed
    have st: "\<forall>k<?n. pos (cells s ! (?h + k)) < 0 \<and> 0 \<le> pos (stamp_cell ub k (cells s ! (?h + k)))"
      using free posn by (simp add: stamp_cell_def)
    have occ: "length (filter (\<lambda>c. 0 \<le> pos c) (upd_range ?h (stamp_cell ub) ?n (cells s))) = occupied s + ?n"
      using occupied_upd_range[of ?h ?n "cells s" "stamp_cell ub"] b len st by (simp add: occupied_def)
    have l2: "length (upd_range ?h (stamp_cell ub) ?n (cells s)) = N" using b len by simp
    have "occupied s + ?n \<le> N"
      using occ l2 length_filter_le[of "\<lambda>c. 0 \<le> pos c" "upd_range ?h (stamp_cell ub) ?n (cells s)"] by simp
    then have a32: "add32 (used s) ?n = occupied s + ?n" using u assms(3) by (simp add: add32_def)
    have "cnt_inv N (s\<lparr>head := ?h, used := add32 (used s) ?n,
               cells := upd_range ?h (stamp_cell ub) ?n (cells s)\<rparr>)"
      using nr sz l2 occ a32 by (simp add: cnt_inv_def occupied_def)
    then have "cnt_inv N s'" using e by simp
    moreover have "?h \<le> N" using b by simp
    ultimately show ?thesis using r by blast
  qed
qed

lemma apply_operation_inv:
  assumes "cnt_inv N s" "head s \<le> N" "N < 2147483648" "op_ok x"
  shows "(\<exists>s'. apply_operation x s = Inr s' \<and> cnt_inv N s' \<and> head s' \<le> N) \<or>
         apply_operation x s = Inl Signed_Overflow"
proof (cases x)
  case (Find_Slot ub)
  then have "ubatch_ok ub" "list_all (\<lambda>p. 0 \<le> p) (take (n_tokens ub) (ub_pos ub))"
    using assms(4) by (simp_all add: op_ok_def)
  from find_slot_inv[OF assms(1-3) this] obtain info s' where
    "find_slot s ub = Inr (info, s')" "cnt_inv N s'" "head s' \<le> N" by blast
  then show ?thesis using Find_Slot by simp
next
  case (Seq_Rm sid p0 p1)
  from seq_rm_inv[OF assms(1,2), of sid p0 p1] obtain b s' where
    "seq_rm s sid p0 p1 = Inr (b, s')" "cnt_inv N s'" "head s' \<le> N" by blast
  then show ?thesis using Seq_Rm by simp
next
  case (Seq_Cp a b p0 p1)
  then show ?thesis using seq_cp_inv[OF assms(1,2), of a b p0 p1] by simp
next
  case (Seq_Keep sid)
  then show ?thesis using seq_keep_inv[OF assms(1,2), of sid] by simp
next
  case (Seq_Add sid p0 p1 d)
  then show ?thesis using seq_add_inv[OF assms(1,2), of sid p0 p1 d] by simp
next
  case (Seq_Div sid p0 p1 d)
  then have "1 \<le> d" using assms(4) by (simp add: op_ok_def)
  from seq_div_inv[OF assms(1,2) this, of sid p0 p1] show ?thesis using Seq_Div by simp
next
  case Clear
  then show ?thesis using clear_inv[OF assms(1,3)] by simp
qed

lemma run_inv:
  assumes "N < 2147483648"
  shows "cnt_inv N s \<Longrightarrow> head s \<le> N \<Longrightarrow> list_all op_ok ops \<Longrightarrow>
         (\<exists>s'. run ops s = Inr s' \<and> cnt_inv N s' \<and> head s' \<le> N) \<or> run ops s = Inl Signed_Overflow"
proof (induction ops arbitrary: s)
  case Nil
  then show ?case by simp
next
  case (Cons x xs)
  have ok: "op_ok x" "list_all op_ok xs" using Cons.prems(3) by simp_all
  from apply_operation_inv[OF Cons.prems(1,2) assms ok(1)] show ?case
  proof
    assume "\<exists>s'. apply_operation x s = Inr s' \<and> cnt_inv N s' \<and> head s' \<le> N"
    then obtain s1 where s1: "apply_operation x s = Inr s1" "cnt_inv N s1" "head s1 \<le> N" by blast
    from Cons.IH[OF s1(2,3) ok(2)] show ?thesis using s1(1) by (simp add: run_Cons)
  next
    assume "apply_operation x s = Inl Signed_Overflow"
    then show ?thesis by (simp add: run_Cons)
  qed
qed

lemma init_inv: "cnt_inv N (init False N) \<and> head (init False N) \<le> N"
  by (simp add: cnt_inv_def init_def occupied_def default_cell_def)

text \<open>
  Claim C1, amended. In non-recurrent mode, start from the initial state of a pool of
  fewer than \<open>2^31\<close> cells and apply any sequence of public operations in which every
  batch given to \<open>find_slot\<close> is well-formed with positions that are not negative and every
  divisor given to \<open>seq_div\<close> is positive. Then, as long as no \<open>seq_add\<close> or \<open>seq_div\<close> has
  overflowed a 32-bit position or \<open>delta\<close> (which is undefined behaviour, and the only way an
  operation of such a sequence does not return), every operation returns and after each of
  them \<open>used\<close> is the number of cells with \<open>pos \<ge> 0\<close>.
\<close>

theorem used_counts_occupied:
  assumes "N < 2147483648" and "list_all op_ok ops"
  shows "\<forall>n\<le>length ops.
           (\<exists>s. run (take n ops) (init False N) = Inr s \<and> used s = occupied s) \<or>
           run (take n ops) (init False N) = Inl Signed_Overflow"
proof (intro allI impI)
  fix n assume "n \<le> length ops"
  have "list_all op_ok (take n ops)" using assms(2) by (auto simp: list_all_iff dest: in_set_takeD)
  from run_inv[OF assms(1) _ _ this, of "init False N"] init_inv[of N]
  show "(\<exists>s. run (take n ops) (init False N) = Inr s \<and> used s = occupied s) \<or>
        run (take n ops) (init False N) = Inl Signed_Overflow"
    by (auto simp: cnt_inv_def)
qed

lemma ub_tok_op_ok: "0 \<le> p \<Longrightarrow> op_ok (Find_Slot (ub_tok p))"
  by (simp add: op_ok_def ub_tok_ok) (simp add: ub_tok_def)

lemma cache1_add_shift:
  "seq_add (cache1 5) 0 0 10 (- 7) =
     Inr ((cache1 5)\<lparr>has_shift := True, used := 0,
            cells := [\<lparr>pos = -1, delta = -7, src = -1, tail = -1, seq_id = {}\<rparr>]\<rparr>)"
  by (simp add: seq_add_def seq_add_step_def cache1_def norm_p0_def norm_p1_def has_seq_id_def
        is_empty_def dec32_def upt_1 Let_def i32_result_def in_i32_def)

lemma cache1_add_overflow: "seq_add (cache1 2147483646) 0 0 (- 1) 2 = Inl Signed_Overflow"
  by (simp add: seq_add_def seq_add_step_def cache1_def norm_p0_def norm_p1_def llama_pos_max_def
        has_seq_id_def upt_1 Let_def i32_result_def in_i32_def)

theorem used_counts_occupied_witness:
  "(1::nat) < 2147483648 \<and> list_all op_ok [Find_Slot (ub_tok 5), Seq_Add 0 0 10 (- 7)] \<and>
   (\<exists>s. run [Find_Slot (ub_tok 5)] (init False 1) = Inr s \<and> used s = 1 \<and> occupied s = 1) \<and>
   (\<exists>s. run [Find_Slot (ub_tok 5), Seq_Add 0 0 10 (- 7)] (init False 1) = Inr s \<and>
        used s = occupied s) \<and>
   list_all op_ok [Find_Slot (ub_tok 2147483646), Seq_Add 0 0 (- 1) 2] \<and>
   run [Find_Slot (ub_tok 2147483646), Seq_Add 0 0 (- 1) 2] (init False 1) = Inl Signed_Overflow"
proof -
  let ?ops = "[Find_Slot (ub_tok 5), Seq_Add 0 0 10 (- 7)]"
  let ?ovf = "[Find_Slot (ub_tok 2147483646), Seq_Add 0 0 (- 1) 2]"
  have a: "(1::nat) < 2147483648" by simp
  have b: "list_all op_ok ?ops" "list_all op_ok ?ovf"
    using ub_tok_op_ok[of 5] ub_tok_op_ok[of 2147483646] by (simp_all add: op_ok_def)
  have c: "run [Find_Slot (ub_tok 5)] (init False 1) = Inr (cache1 5)"
    by (simp only: run_find_slot1 run_Nil)
  have d: "used (cache1 5) = 1" "occupied (cache1 5) = 1" by (simp_all add: cache1_def occupied_def)
  have "run ?ops (init False 1) =
     Inr ((cache1 5)\<lparr>has_shift := True, used := 0,
            cells := [\<lparr>pos = -1, delta = -7, src = -1, tail = -1, seq_id = {}\<rparr>]\<rparr>)"
    by (subst run_find_slot1)
       (simp only: run_Cons run_Nil apply_operation.simps cache1_add_shift bind_res_simps)
  then have r: "run ?ops (init False 1) \<noteq> Inl Signed_Overflow" by simp
  have "length ?ops \<le> length ?ops \<longrightarrow>
      ((\<exists>s. run (take (length ?ops) ?ops) (init False 1) = Inr s \<and> used s = occupied s) \<or>
       run (take (length ?ops) ?ops) (init False 1) = Inl Signed_Overflow)"
    using used_counts_occupied[OF a b(1)] by (rule spec)
  then have "(\<exists>s. run ?ops (init False 1) = Inr s \<and> used s = occupied s) \<or>
       run ?ops (init False 1) = Inl Signed_Overflow"
    by (simp only: take_all order_refl simp_thms)
  then have e: "\<exists>s. run ?ops (init False 1) = Inr s \<and> used s = occupied s" using r by blast
  have f: "run ?ovf (init False 1) = Inl Signed_Overflow"
    by (subst run_find_slot1)
       (simp only: run_Cons run_Nil apply_operation.simps cache1_add_overflow bind_res_simps)
  show ?thesis using a b c d e f by blast
qed

lemma rec_find_slot5: "find_slot (init True 2) (ub_tok 5) = Inr (slot_info_of_bool True, rcache5)"
  by (simp add: find_slot_recurrent_eval init_def ub_tok_def rcache5_def replicate_numeral
        next_empty_loop_unfold)

lemma seq_rm_init_empty_range: "seq_rm (init True 2) (- 1) 5 3 = Inr (False, init True 2)"
  by (simp add: seq_rm_def seq_rm_recurrent_def norm_p0_def norm_p1_def llama_pos_max_def init_def Let_def)

text \<open>
  Claim C5 as stated fails for a range with \<open>p0 > p1\<close>: in recurrent mode
  \<open>seq_rm(-1, 5, 3)\<close> returns \<open>false\<close>, although no position lies in \<open>[5, 3)\<close>: the code
  takes a range for empty only when its bounds are equal.
\<close>

theorem seq_rm_empty_range_counterexample:
  "recurrent (init True 2) \<and> {p. norm_p0 5 \<le> p \<and> p < norm_p1 3} = {} \<and>
   seq_rm (init True 2) (- 1) 5 3 = Inr (False, init True 2)"
proof -
  have "recurrent (init True 2)" by (simp add: init_def)
  moreover have "{p. norm_p0 5 \<le> p \<and> p < norm_p1 3} = {}"
    by (auto simp: norm_p0_def norm_p1_def)
  ultimately show ?thesis using seq_rm_init_empty_range by simp
qed

theorem seq_rm_result_witness:
  "wf_cache (init True 2) \<and> recurrent (init True 2) \<and>
   (\<exists>s'. seq_rm (init True 2) 5 0 1 = Inr (False, s')) \<and>
   (\<exists>s'. seq_rm (init True 2) (- 1) 0 1 = Inr (False, s')) \<and>
   (\<exists>s'. seq_rm (init True 2) (- 1) (- 1) (- 1) = Inr (True, s')) \<and>
   wf_cache (init False 2) \<and> (\<exists>s'. seq_rm (init False 2) 5 0 1 = Inr (True, s')) \<and>
   run [Find_Slot (ub_tok 5)] (init True 2) = Inr rcache5 \<and>
   wf_cache rcache5 \<and> recurrent rcache5 \<and> list_all (\<lambda>c. tail c < int (size_kv rcache5)) (cells rcache5) \<and>
   tail (cells rcache5 ! 0) = 0 \<and> pos (cells rcache5 ! 0) = 5 \<and>
   (\<exists>s'. seq_rm rcache5 0 3 (- 1) = Inr (False, s')) \<and>
   (\<exists>s'. seq_rm rcache5 0 0 3 = Inr (False, s')) \<and>
   (\<exists>s'. seq_rm rcache5 0 6 (- 1) = Inr (True, s')) \<and>
   (\<exists>s'. seq_rm rcache5 0 0 (- 1) = Inr (True, s'))"
proof -
  have w: "wf_cache (init True 2)" "wf_cache (init False 2)" by (simp_all add: wf_cache_def init_def)
  have r: "recurrent (init True 2)" "\<not> recurrent (init False 2)" by (simp_all add: init_def)
  have sz: "size_kv (init True 2) = 2" by (simp add: init_def)
  have t: "recurrent (init True 2) \<longrightarrow> (\<forall>c \<in> set (cells (init True 2)). tail c < int (size_kv (init True 2)))"
    by (simp add: init_def default_cell_def)
  have t': "recurrent (init False 2) \<longrightarrow> (\<forall>c \<in> set (cells (init False 2)). tail c < int (size_kv (init False 2)))"
    by (simp add: init_def)
  have a: "\<exists>s'. seq_rm (init True 2) 5 0 1 = Inr (False, s')"
    using seq_rm_result[OF w(1) t, of 5 0 1] r(1) by (auto simp: sz)
  have b: "\<exists>s'. seq_rm (init True 2) (- 1) 0 1 = Inr (False, s')"
    using seq_rm_result[OF w(1) t, of "- 1" 0 1] r(1)
    by (auto simp: sz norm_p0_def norm_p1_def llama_pos_max_def)
  have c: "\<exists>s'. seq_rm (init True 2) (- 1) (- 1) (- 1) = Inr (True, s')"
    using seq_rm_result[OF w(1) t, of "- 1" "- 1" "- 1"] r(1)
    by (auto simp: sz norm_p0_def norm_p1_def llama_pos_max_def)
  have d: "\<exists>s'. seq_rm (init False 2) 5 0 1 = Inr (True, s')"
    using seq_rm_result[OF w(2) t', of 5 0 1] r(2) by auto
  have e: "run [Find_Slot (ub_tok 5)] (init True 2) = Inr rcache5"
    by (simp only: run_Cons run_Nil apply_operation.simps rec_find_slot5 bind_res_simps prod.case)
  have w5: "wf_cache rcache5" and r5: "recurrent rcache5" and sz5: "size_kv rcache5 = 2"
    and c5: "tail (cells rcache5 ! 0) = 0" "pos (cells rcache5 ! 0) = 5"
    by (simp_all add: rcache5_def wf_cache_def)
  have t5: "recurrent rcache5 \<longrightarrow> (\<forall>c \<in> set (cells rcache5). tail c < int (size_kv rcache5))"
    by (simp add: rcache5_def default_cell_def)
  have l5: "list_all (\<lambda>c. tail c < int (size_kv rcache5)) (cells rcache5)"
    by (simp add: rcache5_def default_cell_def)
  have f: "\<exists>s'. seq_rm rcache5 0 3 (- 1) = Inr (False, s')"
    using seq_rm_result[OF w5 t5, of 0 3 "- 1"] r5 c5
    by (auto simp: sz5 norm_p0_def norm_p1_def llama_pos_max_def)
  have g: "\<exists>s'. seq_rm rcache5 0 0 3 = Inr (False, s')"
    using seq_rm_result[OF w5 t5, of 0 0 3] r5 c5
    by (auto simp: sz5 norm_p0_def norm_p1_def llama_pos_max_def)
  have h: "\<exists>s'. seq_rm rcache5 0 6 (- 1) = Inr (True, s')"
    using seq_rm_result[OF w5 t5, of 0 6 "- 1"] r5 c5
    by (auto simp: sz5 norm_p0_def norm_p1_def llama_pos_max_def)
  have i: "\<exists>s'. seq_rm rcache5 0 0 (- 1) = Inr (True, s')"
    using seq_rm_result[OF w5 t5, of 0 0 "- 1"] r5 c5
    by (auto simp: sz5 norm_p0_def norm_p1_def llama_pos_max_def)
  show ?thesis using w r a b c d e w5 r5 l5 c5 f g h i by blast
qed

lemma delta_last [simp]:
  "c\<lparr>delta := y, pos := x\<rparr> = (c::llama_kv_cell)\<lparr>pos := x, delta := y\<rparr>"
  "c\<lparr>delta := y, src := x\<rparr> = c\<lparr>src := x, delta := y\<rparr>"
  "c\<lparr>delta := y, tail := x\<rparr> = c\<lparr>tail := x, delta := y\<rparr>"
  "c\<lparr>delta := y, seq_id := X\<rparr> = c\<lparr>seq_id := X, delta := y\<rparr>"
  by simp_all

lemma with_aux_fields [simp]:
  "size_kv (with_aux b d n f s) = size_kv s"
  "head (with_aux b d n f s) = head s"
  "used (with_aux b d n f s) = used s"
  "recurrent (with_aux b d n f s) = recurrent s"
  "length (cells (with_aux b d n f s)) = length (cells s)"
  by (simp_all add: with_aux_def)

lemma with_aux_nth [simp]:
  "j < length (cells s) \<Longrightarrow> cells (with_aux b d n f s) ! j = (cells s ! j)\<lparr>delta := f j\<rparr>"
  by (simp add: with_aux_def)

lemma with_aux_cell_at [simp]:
  "cell_at (with_aux b d n f s) i = map_sum id (\<lambda>c. c\<lparr>delta := f (nat i)\<rparr>) (cell_at s i)"
  by (simp add: cell_at_def)

lemma with_aux_set_cell [simp]:
  "set_cell (with_aux b d n f s) i (c\<lparr>delta := f (nat i)\<rparr>) = with_aux b d n f (set_cell s i c)"
proof -
  have "(map (\<lambda>j. (cells s ! j)\<lparr>delta := f j\<rparr>) [0..<length (cells s)])[nat i := c\<lparr>delta := f (nat i)\<rparr>]
      = map (\<lambda>j. ((cells s)[nat i := c] ! j)\<lparr>delta := f j\<rparr>) [0..<length (cells s)]"
    by (cases "nat i < length (cells s)") (auto intro!: nth_equalityI simp: nth_list_update)
  then show ?thesis by (simp add: with_aux_def set_cell_def)
qed

lemma with_aux_upd [simp]:
  "(with_aux b d n f s)\<lparr>used := u\<rparr> = with_aux b d n f (s\<lparr>used := u\<rparr>)"
  "(with_aux b d n f s)\<lparr>head := h\<rparr> = with_aux b d n f (s\<lparr>head := h\<rparr>)"
  by (simp_all add: with_aux_def)

lemma core_alt: "core s = with_aux False False 0 (\<lambda>i. 0) s"
proof -
  have "map (\<lambda>c. c\<lparr>delta := 0\<rparr>) (cells s) = map (\<lambda>i. (cells s ! i)\<lparr>delta := 0\<rparr>) [0..<length (cells s)]"
    by (rule nth_equalityI) simp_all
  then show ?thesis by (simp add: core_def with_aux_def)
qed

lemma core_with_aux [simp]: "core (with_aux b d n f s) = core s"
  by (auto simp: core_alt with_aux_def intro!: nth_equalityI)

lemma core_n_kv [simp]: "core (s\<lparr>n_kv := n\<rparr>) = core s"
  by (simp add: core_def)

lemma set_cell_length [simp]: "length (cells (set_cell s i c)) = length (cells s)"
  by (simp add: set_cell_def)

lemma set_cell_fields [simp]:
  "size_kv (set_cell s i c) = size_kv s" "head (set_cell s i c) = head s"
  "used (set_cell s i c) = used s" "recurrent (set_cell s i c) = recurrent s"
  by (simp_all add: set_cell_def)

lemma cell_at_D:
  assumes "cell_at s i = Inr c"
  shows "0 \<le> i" "nat i < length (cells s)" "c = cells s ! nat i"
  using assms by (simp_all add: cell_at_def split: if_splits)

lemma cell_at_eq_Inr:
  "cell_at s i = Inr c \<longleftrightarrow> 0 \<le> i \<and> nat i < length (cells s) \<and> c = cells s ! nat i"
  by (auto simp: cell_at_def)

lemma cell_at_eq_Inl:
  "cell_at s i = Inl e \<longleftrightarrow> \<not> (0 \<le> i \<and> nat i < length (cells s)) \<and> e = Out_Of_Bounds"
  by (auto simp: cell_at_def)

lemma bind_res_map_sum: "bind_res (map_sum id g m) F = bind_res m (\<lambda>x. F (g x))"
  by (cases m) simp_all

lemma map_sum_bind_res: "map_sum id g (bind_res m F) = bind_res m (\<lambda>x. map_sum id g (F x))"
  by (cases m) simp_all

lemma bind_res_cong: "m = m' \<Longrightarrow> (\<And>x. m' = Inr x \<Longrightarrow> F x = G x) \<Longrightarrow> bind_res m F = bind_res m' G"
  by (cases m') simp_all

lemma fold_res_comm:
  assumes "\<And>x s. g x (W s) = map_sum id W (g x s)"
  shows "fold_res g xs (W s) = map_sum id W (fold_res g xs s)"
proof (induction xs arbitrary: s)
  case Nil
  show ?case by simp
next
  case (Cons x xs)
  show ?case
    by (cases "g x s") (simp_all add: assms Cons.IH)
qed

lemma stamp_token_alt:
  "stamp_token ub g i st = stamp_at ub g (g * n_seq_tokens ub + i) (head st + (g * n_seq_tokens ub + i)) st"
  by (simp add: stamp_token_def stamp_at_def Let_def)

lemma with_aux_set_cell_nat [simp]:
  "set_cell (with_aux b d n f s) (int x) (c\<lparr>delta := f x\<rparr>) = with_aux b d n f (set_cell s (int x) c)"
  using with_aux_set_cell[of b d n f s "int x" c] by simp

lemma stamp_at_with_aux:
  "stamp_at ub g k x (with_aux b d n f s) = map_sum id (with_aux b d n f) (stamp_at ub g k x s)"
proof -
  let ?W = "with_aux b d n f"
  let ?body = "\<lambda>j st'. bind_res (seq_id_at ub g j) (\<lambda>q.
              let c' = cells st' ! x
              in Inr (set_cell st' (int x) (c'\<lparr>seq_id := insert q (seq_id c')\<rparr>)))"
  have body: "?body j (?W t) = map_sum id ?W (?body j t)" if "x < length (cells t)" for j t
    using that by (cases "seq_id_at ub g j") (simp_all add: Let_def)
  have loop: "fold_res ?body js (?W t) = map_sum id ?W (fold_res ?body js t)"
    if "x < length (cells t)" for js t
    using that
  proof (induction js arbitrary: t)
    case Nil
    show ?case by simp
  next
    case (Cons j js)
    show ?case
    proof (cases "?body j t")
      case (Inl e)
      then show ?thesis using body[OF Cons.prems, of j] by simp
    next
      case (Inr t')
      then have "length (cells t') = length (cells t)"
        by (auto simp: bind_res_eq_Inr Let_def)
      then have "x < length (cells t')" using Cons.prems by simp
      from Cons.IH[OF this] show ?thesis using body[OF Cons.prems, of j] Inr by simp
    qed
  qed
  show ?thesis
  proof (cases "arr_at (ub_pos ub) k")
    case (Inl e)
    then show ?thesis by (simp add: stamp_at_def)
  next
    case p: (Inr p)
    show ?thesis
    proof (cases "cell_at s (int x)")
      case (Inl e)
      then show ?thesis using p by (simp add: stamp_at_def)
    next
      case c: (Inr c)
      then have r: "x < length (cells s)" by (simp add: cell_at_eq_Inr)
      show ?thesis
      proof (cases "arr_at (n_seq_id ub) g")
        case (Inl e)
        then show ?thesis using p c by (simp add: stamp_at_def)
      next
        case (Inr m)
        have "x < length (cells (set_cell s (int x) (c\<lparr>pos := p\<rparr>)))"
          using r by simp
        from loop[OF this, of "[0..<nat m]"] show ?thesis
          using p c Inr by (simp add: stamp_at_def)
      qed
    qed
  qed
qed

lemma stamp_token_with_aux:
  "stamp_token ub g i (with_aux b d n f s) = map_sum id (with_aux b d n f) (stamp_token ub g i s)"
  by (simp only: stamp_token_alt stamp_at_with_aux with_aux_fields)

lemma stamp_all_with_aux:
  "stamp_all ub (with_aux b d n f s) = map_sum id (with_aux b d n f) (stamp_all ub s)"
  unfolding stamp_all_def
  by (intro fold_res_comm stamp_token_with_aux)

lemma scan_step_cong_pos:
  assumes "\<forall>j<sz. pos (cs' ! j) = pos (cs ! j)"
  shows "scan_step cs' sz n_tok st = scan_step cs sz n_tok st"
proof (cases st)
  case (Pair h t)
  show ?thesis
  proof (cases "h + n_tok > sz")
    case True
    then show ?thesis using Pair by (simp add: scan_step_def)
  next
    case False
    have "List.find (\<lambda>i. pos (cs' ! (h + i)) \<ge> 0) [0..<n_tok] = List.find (\<lambda>i. pos (cs ! (h + i)) \<ge> 0) [0..<n_tok]"
      using False assms by (intro find_cong) auto
    then show ?thesis using Pair by (simp add: scan_step_def)
  qed
qed

lemma scan_iter_cong_pos:
  assumes "\<forall>j<sz. pos (cs' ! j) = pos (cs ! j)"
  shows "scan_iter cs' sz n_tok st k = scan_iter cs sz n_tok st k"
  by (induction k) (simp_all add: scan_step_cong_pos[OF assms] split: sum.splits)

lemma find_slot_scan_cong_pos:
  assumes "\<forall>j<sz. pos (cs' ! j) = pos (cs ! j)" and "n_tok \<le> sz"
  shows "find_slot_scan cs' sz n_tok st = find_slot_scan cs sz n_tok st"
proof -
  obtain k r where k: "scan_iter cs sz n_tok st k = Inl r"
    using scan_iter_returns[OF assms(2)] by blast
  then have "scan_iter cs' sz n_tok st k = Inl r"
    by (simp add: scan_iter_cong_pos[OF assms(1)])
  from scan_iter_Inl_loop[OF this] scan_iter_Inl_loop[OF k] show ?thesis by simp
qed

lemma find_slot_transformer_with_aux:
  assumes "wf_cache s"
  shows "find_slot_transformer (with_aux b d n f s) ub
       = map_sum id (map_prod id (with_aux b d n f)) (find_slot_transformer s ub)"
proof (cases "n_tokens ub > size_kv s")
  case True
  then show ?thesis by (simp add: find_slot_transformer_def)
next
  case False
  have "\<forall>j<size_kv s. pos (cells (with_aux b d n f s) ! j) = pos (cells s ! j)"
    using assms by (simp add: wf_cache_def)
  then have sc: "find_slot_scan (cells (with_aux b d n f s)) (size_kv s) (n_tokens ub) (head s, 0)
      = find_slot_scan (cells s) (size_kv s) (n_tokens ub) (head s, 0)"
    using False by (intro find_slot_scan_cong_pos) simp_all
  show ?thesis
  proof (cases "find_slot_scan (cells s) (size_kv s) (n_tokens ub) (head s, 0)")
    case None
    then show ?thesis using False sc by (simp add: find_slot_transformer_def)
  next
    case (Some r)
    obtain found h where r: "r = (found, h)" by (cases r)
    show ?thesis
    proof (cases found)
      case False
      then show ?thesis using \<open>\<not> n_tokens ub > size_kv s\<close> sc Some r
        by (simp add: find_slot_transformer_def)
    next
      case True
      show ?thesis
      proof (cases "stamp_all ub (s\<lparr>head := h\<rparr>)")
        case (Inl e)
        then show ?thesis using \<open>\<not> n_tokens ub > size_kv s\<close> sc Some r True
          by (simp add: find_slot_transformer_def stamp_all_with_aux)
      next
        case (Inr s')
        then show ?thesis using \<open>\<not> n_tokens ub > size_kv s\<close> sc Some r True
          by (simp add: find_slot_transformer_def stamp_all_with_aux)
      qed
    qed
  qed
qed

lemma fold_exit_comm:
  assumes "\<And>x s. g x (W s) = map_sum id (map_prod id W) (g x s)"
  shows "fold_exit g xs (W s) = map_sum id (map_prod id W) (fold_exit g xs s)"
proof (induction xs arbitrary: s)
  case Nil
  show ?case by simp
next
  case (Cons x xs)
  show ?case
  proof (cases "g x s")
    case (Inl e)
    then show ?thesis by (simp add: assms)
  next
    case (Inr r)
    then show ?thesis by (cases r) (simp add: assms Cons.IH)
  qed
qed

lemma is_empty_delta [simp]: "is_empty (c\<lparr>delta := x\<rparr>) = is_empty c"
  by (simp add: is_empty_def)

lemma has_seq_id_delta [simp]: "has_seq_id (c\<lparr>delta := x\<rparr>) q = has_seq_id c q"
  by (simp add: has_seq_id_def)

lemma check_seq_id_with_aux:
  "check_seq_id ub g j (with_aux b d n f s)
     = map_sum id (map_prod id (with_aux b d n f)) (check_seq_id ub g j s)"
proof (cases "seq_id_at ub g j")
  case (Inl e)
  then show ?thesis by (simp add: check_seq_id_def)
next
  case q: (Inr q)
  show ?thesis
  proof (cases "cell_at s q")
    case (Inl e)
    then show ?thesis using q by (simp add: check_seq_id_def)
  next
    case seq: (Inr seq)
    then have rq: "nat q < length (cells s)" by (simp add: cell_at_eq_Inr)
    show ?thesis
    proof (cases "cell_at s (tail seq)")
      case (Inl e)
      then show ?thesis using q seq by (simp add: check_seq_id_def)
    next
      case (Inr cell)
      then have rt: "nat (tail seq) < length (cells s)" by (simp add: cell_at_eq_Inr)
      show ?thesis using q seq Inr rq rt by (simp add: check_seq_id_def Let_def)
    qed
  qed
qed

lemma check_seq_ids_with_aux:
  "check_seq_ids ub (with_aux b d n f s)
     = map_sum id (map_prod id (with_aux b d n f)) (check_seq_ids ub s)"
  unfolding check_seq_ids_def
proof (rule fold_exit_comm)
  fix x s
  show "bind_res (arr_at (n_seq_id ub) x) (\<lambda>m. fold_exit (check_seq_id ub x) [0..<u32 m] (with_aux b d n f s))
      = map_sum id (map_prod id (with_aux b d n f))
          (bind_res (arr_at (n_seq_id ub) x) (\<lambda>m. fold_exit (check_seq_id ub x) [0..<u32 m] s))"
    by (cases "arr_at (n_seq_id ub) x")
       (simp_all add: fold_exit_comm[of "check_seq_id ub x" "with_aux b d n f", OF check_seq_id_with_aux])
qed

lemma next_empty_loop_with_aux:
  "next_empty_loop (with_aux b d n f s) k nx = next_empty_loop s k nx"
proof (induction k arbitrary: nx)
  case 0
  show ?case by simp
next
  case (Suc k)
  show ?case
    by (simp add: Let_def Suc.IH bind_res_map_sum cong: if_cong)
qed

lemma set_tails_with_aux:
  "set_tails ids t (with_aux b d n f s) = map_sum id (with_aux b d n f) (set_tails ids t s)"
  unfolding set_tails_def
proof (rule fold_res_comm)
  fix q s
  show "bind_res (cell_at (with_aux b d n f s) q) (\<lambda>c. Inr (set_cell (with_aux b d n f s) q (c\<lparr>tail := t\<rparr>)))
      = map_sum id (with_aux b d n f) (bind_res (cell_at s q) (\<lambda>c. Inr (set_cell s q (c\<lparr>tail := t\<rparr>))))"
    by (cases "cell_at s q") simp_all
qed

lemma bind_res_assoc: "bind_res (bind_res m f) g = bind_res m (\<lambda>x. bind_res (f x) g)"
  by (cases m) simp_all

lemma fold_res_comm_inv:
  assumes "\<And>x s. P s \<Longrightarrow> g x (W s) = map_sum id W (g x s)"
    and "\<And>x s s'. P s \<Longrightarrow> g x s = Inr s' \<Longrightarrow> P s'"
  shows "P s \<Longrightarrow> fold_res g xs (W s) = map_sum id W (fold_res g xs s)"
proof (induction xs arbitrary: s)
  case Nil
  show ?case by simp
next
  case (Cons x xs)
  show ?case
  proof (cases "g x s")
    case (Inl e)
    then show ?thesis using assms(1)[OF Cons.prems, of x] by simp
  next
    case (Inr s')
    from Cons.IH[OF assms(2)[OF Cons.prems Inr]] show ?thesis
      using assms(1)[OF Cons.prems, of x] Inr by simp
  qed
qed

lemma gather_with_aux:
  "gather ub mn g (with_aux b d n f s) = map_sum id (with_aux b d n f) (gather ub mn g s)"
proof (cases "seq_id_at ub g 0")
  case (Inl e)
  then show ?thesis by (simp add: gather_def)
next
  case q: (Inr q)
  show ?thesis
  proof (cases "cell_at s q")
    case (Inl e)
    then show ?thesis using q by (simp add: gather_def)
  next
    case seq: (Inr seq_meta)
    show ?thesis
    proof (cases "cell_at s (i32 (int g + mn))")
      case (Inl e)
      then show ?thesis using q seq by (simp add: gather_def Let_def)
    next
      case dst: (Inr dst_cell)
      show ?thesis
      proof (cases "cell_at s (tail seq_meta)")
        case (Inl e)
        then show ?thesis using q seq dst by (simp add: gather_def Let_def)
      next
        case (Inr src_cell)
        then show ?thesis using q seq dst
          by (simp add: gather_def Let_def set_tails_with_aux bind_res_map_sum map_sum_bind_res)
      qed
    qed
  qed
qed

lemma find_tail_with_aux:
  "find_tail ub g (map_prod (with_aux b d n f) id t)
     = map_sum id (map_prod (with_aux b d n f) id) (find_tail ub g t)"
proof -
  let ?W = "with_aux b d n f"
  obtain st nx mn mx where t: "t = (st, nx, mn, mx)" by (cases t)
  show ?thesis
  proof (cases "seq_id_at ub g 0")
    case (Inl e)
    then show ?thesis by (simp add: find_tail_def t)
  next
    case q: (Inr q)
    show ?thesis
    proof (cases "cell_at st q")
      case (Inl e)
      then show ?thesis using q by (simp add: find_tail_def t)
    next
      case sm: (Inr seq_meta)
      then have rq: "nat q < length (cells st)" by (simp add: cell_at_eq_Inr)
      show ?thesis
      proof (cases "cell_at st (int nx)")
        case en: (Inl e)
        show ?thesis
        proof (cases "cell_at st (tail seq_meta)")
          case (Inl e')
          then show ?thesis using q sm en rq by (simp add: find_tail_def t Let_def)
        next
          case (Inr cell)
          then have rt: "nat (tail seq_meta) < length (cells st)" by (simp add: cell_at_eq_Inr)
          show ?thesis using q sm en Inr rq rt by (simp add: find_tail_def t Let_def)
        qed
      next
        case ec: (Inr empty_cell)
        then have rn: "nx < length (cells st)" by (simp add: cell_at_eq_Inr)
        show ?thesis
        proof (cases "cell_at st (tail seq_meta)")
          case (Inl e')
          then show ?thesis using q sm ec rq rn
            by (simp add: find_tail_def t Let_def next_empty_loop_with_aux bind_res_assoc
                  bind_res_map_sum map_sum_bind_res cong: if_cong)
        next
          case (Inr cell)
          then have rt: "nat (tail seq_meta) < length (cells st)" by (simp add: cell_at_eq_Inr)
          show ?thesis using q sm ec Inr rq rn rt
            by (simp add: find_tail_def t Let_def next_empty_loop_with_aux bind_res_assoc
                  bind_res_map_sum map_sum_bind_res cong: if_cong)
        qed
      qed
    qed
  qed
qed

lemma update_pos_with_aux:
  "update_pos ub mn g (with_aux b d n f s) = map_sum id (with_aux b d n f) (update_pos ub mn g s)"
proof -
  let ?W = "with_aux b d n f"
  let ?x = "i32 (int g + mn)"
  let ?body = "\<lambda>j st'. bind_res (seq_id_at ub g j) (\<lambda>q.
             let c = cells st' ! nat ?x;
                 st1 = set_cell st' ?x (c\<lparr>seq_id := insert q (seq_id c)\<rparr>)
             in bind_res (cell_at st1 q) (\<lambda>m. Inr (set_cell st1 q (m\<lparr>tail := ?x\<rparr>))))"
  have body: "?body j (?W t) = map_sum id ?W (?body j t)" if "nat ?x < length (cells t)" for j t
  proof (cases "seq_id_at ub g j")
    case (Inl e)
    then show ?thesis by simp
  next
    case (Inr q)
    show ?thesis
      by (cases "cell_at (set_cell t ?x ((cells t ! nat ?x)\<lparr>seq_id := insert q (seq_id (cells t ! nat ?x))\<rparr>)) q")
         (use Inr that in \<open>simp_all add: Let_def\<close>)
  qed
  have len: "nat ?x < length (cells t')" if "nat ?x < length (cells t)" "?body j t = Inr t'" for j t t'
    using that by (auto simp: bind_res_eq_Inr Let_def)
  have loop: "fold_res ?body js (?W t) = map_sum id ?W (fold_res ?body js t)"
    if "nat ?x < length (cells t)" for js t
  proof (rule fold_res_comm_inv[where P = "\<lambda>t. nat ?x < length (cells t)" and g = ?body and W = ?W])
    fix j and t :: llama_kv_cache assume "nat ?x < length (cells t)"
    then show "?body j (?W t) = map_sum id ?W (?body j t)" by (rule body)
  next
    fix j and t t' :: llama_kv_cache assume "nat ?x < length (cells t)" "?body j t = Inr t'"
    then show "nat ?x < length (cells t')" by (rule len)
  next
    show "nat ?x < length (cells t)" by (rule that)
  qed
  show ?thesis
  proof (cases "arr_at (ub_pos ub) (u32 (int (n_seq_tokens ub) * int g + int (n_seq_tokens ub) - 1))")
    case (Inl e)
    then show ?thesis by (simp add: update_pos_def)
  next
    case p: (Inr last_pos)
    show ?thesis
    proof (cases "cell_at s ?x")
      case (Inl e)
      then show ?thesis using p by (simp add: update_pos_def Let_def)
    next
      case c: (Inr cell)
      then have r: "nat ?x < length (cells s)" by (simp add: cell_at_eq_Inr)
      show ?thesis
      proof (cases "arr_at (n_seq_id ub) g")
        case (Inl e)
        then show ?thesis using p c by (simp add: update_pos_def Let_def)
      next
        case (Inr m)
        have "nat ?x < length (cells (set_cell s ?x (cell\<lparr>pos := last_pos, seq_id := {}\<rparr>)))"
          using r by simp
        from loop[OF this, of "[0..<nat m]"] show ?thesis
          using p c Inr by (simp add: update_pos_def Let_def)
      qed
    qed
  qed
qed

lemma length_filter_map_cong:
  assumes "map P xs = map P ys"
  shows "length (filter P xs) = length (filter P ys)"
proof -
  have a: "length (filter P xs) = length (filter id (map P xs))"
    and b: "length (filter P ys) = length (filter id (map P ys))"
    by (simp_all add: filter_map comp_def)
  show ?thesis by (simp only: a b assms)
qed

lemma nonempty_count_with_aux:
  "length (filter (\<lambda>c. \<not> is_empty c) (cells (with_aux b d n f s)))
     = length (filter (\<lambda>c. \<not> is_empty c) (cells s))"
  by (rule length_filter_map_cong) (rule nth_equalityI, simp_all)

lemma core_n_kv_mid [simp]:
  "core (s\<lparr>head := h, n_kv := x, used := u\<rparr>) = core (s\<lparr>head := h, used := u\<rparr>)"
  by (simp add: core_def)

lemma with_aux_n_kv [simp]:
  "(with_aux b d n f s)\<lparr>n_kv := x\<rparr> = with_aux b d x f s"
  "with_aux b d n f (s\<lparr>n_kv := x\<rparr>) = with_aux b d n f s"
  by (simp_all add: with_aux_def)

lemma map_prod_with_aux_tuple:
  "(with_aux b d n f s, r) = map_prod (with_aux b d n f) id (s, r)"
  by simp

lemma find_slot_recurrent_with_aux:
  "map_sum id (map_prod id core) (find_slot_recurrent (with_aux b d n f s) ub)
     = map_sum id (map_prod id core) (find_slot_recurrent s ub)"
proof (cases "equal_seqs ub")
  case False
  then show ?thesis by (simp add: find_slot_recurrent_def)
next
  case eq: True
  let ?W = "with_aux b d n f"
  have chk: "check_seq_ids ub (?W s) = map_sum id (map_prod id ?W) (check_seq_ids ub s)"
    by (rule check_seq_ids_with_aux)
  show ?thesis
  proof (cases "check_seq_ids ub s")
    case (Inl e)
    then show ?thesis using eq chk by (simp add: find_slot_recurrent_def)
  next
    case (Inr r1)
    obtain go_on s1 where r1: "r1 = (go_on, s1)" by (cases r1)
    have c1: "check_seq_ids ub s = Inr (go_on, s1)" "check_seq_ids ub (?W s) = Inr (go_on, ?W s1)"
      using Inr r1 chk by simp_all
    show ?thesis
    proof (cases go_on)
      case False
      then show ?thesis using eq c1 by (simp add: find_slot_recurrent_def)
    next
      case go: True
      have ne: "next_empty_loop (?W s1) (size_kv (?W s1)) (head (?W s1)) = next_empty_loop s1 (size_kv s1) (head s1)"
        by (simp add: next_empty_loop_with_aux)
      show ?thesis
      proof (cases "next_empty_loop s1 (size_kv s1) (head s1)")
        case (Inl e)
        then show ?thesis using eq c1 go ne by (simp add: find_slot_recurrent_def)
      next
        case nx: (Inr nx)
        let ?t0 = "(s1, nx, i32 (int (size_kv s1) - 1), 0::int)"
        have ft: "fold_res (find_tail ub) [0..<n_seqs ub] (?W s1, nx, i32 (int (size_kv (?W s1)) - 1), 0)
            = map_sum id (map_prod ?W id) (fold_res (find_tail ub) [0..<n_seqs ub] ?t0)"
          using fold_res_comm[of "find_tail ub" "map_prod ?W id" "[0..<n_seqs ub]" ?t0, OF find_tail_with_aux]
          by simp
        show ?thesis
        proof (cases "fold_res (find_tail ub) [0..<n_seqs ub] ?t0")
          case (Inl e)
          then show ?thesis using eq c1 go ne nx ft by (simp add: find_slot_recurrent_def)
        next
          case t2: (Inr t2)
          obtain s2 nx2 mn mx where t2e: "t2 = (s2, nx2, mn, mx)" by (cases t2)
          have f2: "fold_res (find_tail ub) [0..<n_seqs ub] ?t0 = Inr (s2, nx2, mn, mx)"
            "fold_res (find_tail ub) [0..<n_seqs ub] (?W s1, nx, i32 (int (size_kv (?W s1)) - 1), 0)
               = Inr (?W s2, nx2, mn, mx)"
            using t2 t2e ft by simp_all
          have ga: "fold_res (gather ub mn) [0..<n_seqs ub] (?W s2)
              = map_sum id ?W (fold_res (gather ub mn) [0..<n_seqs ub] s2)"
            by (rule fold_res_comm[of "gather ub mn" ?W, OF gather_with_aux])
          show ?thesis
          proof (cases "fold_res (gather ub mn) [0..<n_seqs ub] s2")
            case (Inl e)
            then show ?thesis using eq c1 go ne nx f2 ga by (simp add: find_slot_recurrent_def)
          next
            case s3: (Inr s3)
            have up: "fold_res (update_pos ub mn) [0..<n_seqs ub] (?W s3)
                = map_sum id ?W (fold_res (update_pos ub mn) [0..<n_seqs ub] s3)"
              by (rule fold_res_comm[of "update_pos ub mn" ?W, OF update_pos_with_aux])
            show ?thesis
            proof (cases "fold_res (update_pos ub mn) [0..<n_seqs ub] s3")
              case (Inl e)
              then show ?thesis using eq c1 go ne nx f2 ga s3 up by (simp add: find_slot_recurrent_def)
            next
              case s4: (Inr s4)
              show ?thesis
                using eq c1 go ne nx f2 ga s3 up s4
                by (simp add: find_slot_recurrent_def Let_def nonempty_count_with_aux
                      bind_res_def i32_result_def split: sum.splits)
            qed
          qed
        qed
      qed
    qed
  qed
qed

lemma blank_nth: "blank s \<Longrightarrow> i < size_kv s \<Longrightarrow> blank_cell (cells s ! i)"
  by (simp add: blank_def wf_cache_def list_all_length)

lemma blank_cell_upd:
  assumes "blank_cell c"
  shows "c\<lparr>tail := - 1\<rparr> = c" "c\<lparr>pos := - 1, src := - 1, seq_id := {}\<rparr> = c"
    "c\<lparr>pos := - 1, seq_id := {}, src := - 1, tail := - 1\<rparr> = c"
  using assms by (cases c; simp add: blank_cell_def)+

lemma head_zero_upd: "head s = 0 \<Longrightarrow> s\<lparr>head := 0\<rparr> = s"
  by (cases s) simp

lemma cells_same_upd: "s\<lparr>cells := cells s\<rparr> = s"
  by simp

lemma fold_upt_id:
  assumes "\<And>i. i < n \<Longrightarrow> f i s = s"
  shows "fold f [0..<n] s = s"
  using assms by (induction n) simp_all

lemma fold_res_upt_id:
  assumes "\<And>i. i < n \<Longrightarrow> f i s = Inr s"
  shows "fold_res f [0..<n] s = Inr s"
  using assms by (induction n) (simp_all add: fold_res_snoc)

text \<open>\<open>seq_rm\<close> on a blank cache\<close>

lemma seq_rm_step_blank:
  assumes "blank s" "i < size_kv s" "0 \<le> p0"
  shows "seq_rm_step sid p0 p1 i (s, nh) = (s, nh)"
  using blank_nth[OF assms(1,2)] assms(3) by (simp add: seq_rm_step_def blank_cell_def Let_def)

lemma seq_rm_recurrent_blank:
  assumes "blank s"
  shows "seq_rm_recurrent s sid p0 p1 =
     Inr (if int (size_kv s) \<le> sid \<or> (sid < 0 \<and> p0 \<noteq> p1 \<and> (p0 \<noteq> 0 \<or> p1 \<noteq> llama_pos_max))
          then None else Some s)"
proof (cases "0 \<le> sid \<and> sid < int (size_kv s)")
  case True
  then have i: "nat sid < size_kv s" by linarith
  then have c: "cell_at s sid = Inr (cells s ! nat sid)"
    using True assms by (simp add: cell_at_def blank_def wf_cache_def)
  have "tail (cells s ! nat sid) = - 1" using blank_nth[OF assms i] by (simp add: blank_cell_def)
  then show ?thesis using True c by (simp add: seq_rm_recurrent_def Let_def)
next
  case False
  then show ?thesis by (auto simp: seq_rm_recurrent_def)
qed

lemma seq_rm_blank:
  assumes "blank s"
  shows "seq_rm s sid p0 p1 =
     Inr (\<not> (recurrent s \<and> (int (size_kv s) \<le> sid \<or>
                (sid < 0 \<and> norm_p0 p0 \<noteq> norm_p1 p1 \<and> (norm_p0 p0 \<noteq> 0 \<or> norm_p1 p1 \<noteq> llama_pos_max)))), s)"
proof -
  have f: "fold (seq_rm_step sid (norm_p0 p0) (norm_p1 p1)) [0..<size_kv s] (s, size_kv s) = (s, size_kv s)"
    by (rule fold_upt_id) (simp add: seq_rm_step_blank[OF assms _ norm_p0_nonneg])
  show ?thesis
    by (simp add: seq_rm_def Let_def seq_rm_recurrent_blank[OF assms] f)
qed

text \<open>\<open>seq_cp\<close> on a blank cache\<close>

lemma seq_cp_step_blank:
  assumes "blank s" "i < size_kv s"
  shows "seq_cp_step a b p0 p1 i s = s"
  using blank_nth[OF assms] by (simp add: seq_cp_step_def blank_cell_def has_seq_id_def Let_def)

lemma seq_cp_recurrent_blank:
  assumes "blank s"
  shows "seq_cp_recurrent s a b =
     (if u32 b < size_kv s \<and> u32 a < size_kv s \<and>
         \<not> (0 \<le> a \<and> nat a < size_kv s \<and> 0 \<le> b \<and> nat b < size_kv s)
      then Inl Out_Of_Bounds else Inr s)"
proof (cases "u32 b < size_kv s \<and> u32 a < size_kv s")
  case False
  then have c: "(u32 b < size_kv s \<and> u32 a < size_kv s) = False" by blast
  have "seq_cp_recurrent s a b = Inr s"
    unfolding seq_cp_recurrent_def by (simp only: c if_False)
  then show ?thesis using False by auto
next
  case True
  have len: "length (cells s) = size_kv s" using assms by (simp add: blank_def wf_cache_def)
  show ?thesis
  proof (cases "0 \<le> a \<and> nat a < size_kv s")
    case False
    then have "cell_at s a = Inl Out_Of_Bounds" using len by (auto simp: cell_at_def)
    then show ?thesis using True False by (simp add: seq_cp_recurrent_def)
  next
    case A: True
    then have ca: "cell_at s a = Inr (cells s ! nat a)" using len by (simp add: cell_at_def)
    have ta: "tail (cells s ! nat a) = - 1" using blank_nth[OF assms, of "nat a"] A by (simp add: blank_cell_def)
    show ?thesis
    proof (cases "0 \<le> b \<and> nat b < size_kv s")
      case False
      then have "cell_at s b = Inl Out_Of_Bounds" using len by (auto simp: cell_at_def)
      then show ?thesis using True False ca by (simp add: seq_cp_recurrent_def)
    next
      case B: True
      then have cb: "cell_at s b = Inr (cells s ! nat b)" using len by (simp add: cell_at_def)
      have tb: "tail (cells s ! nat b) = - 1" using blank_nth[OF assms, of "nat b"] B by (simp add: blank_cell_def)
      show ?thesis using True A B ca cb ta tb by (simp add: seq_cp_recurrent_def Let_def)
    qed
  qed
qed

lemma seq_cp_blank:
  assumes "blank s"
  shows "seq_cp s a b p0 p1 =
     (if recurrent s \<and> a \<noteq> b \<and> u32 b < size_kv s \<and> u32 a < size_kv s \<and>
         \<not> (0 \<le> a \<and> nat a < size_kv s \<and> 0 \<le> b \<and> nat b < size_kv s)
      then Inl Out_Of_Bounds else Inr s)"
proof -
  have h: "s\<lparr>head := 0\<rparr> = s" using assms by (simp add: blank_def head_zero_upd)
  have f: "fold (seq_cp_step a b (norm_p0 p0) (norm_p1 p1)) [0..<size_kv s] s = s"
    by (rule fold_upt_id) (simp add: seq_cp_step_blank[OF assms])
  show ?thesis
    by (simp add: seq_cp_def Let_def seq_cp_recurrent_blank[OF assms] h f)
qed

text \<open>\<open>seq_keep\<close> on a blank cache\<close>

lemma seq_keep_step_blank:
  assumes "blank s" "i < size_kv s"
  shows "fst (seq_keep_step sid i (s, nh)) = s"
proof -
  have c: "blank_cell (cells s ! i)" by (rule blank_nth[OF assms])
  have u: "(cells s)[i := cells s ! i] = cells s" by simp
  show ?thesis
    using c by (simp add: seq_keep_step_def Let_def blank_cell_upd[OF c] has_seq_id_def)
       (simp add: blank_cell_def)
qed

lemma seq_keep_blank:
  assumes "blank s"
  shows "seq_keep s sid = s"
proof -
  let ?f = "seq_keep_step sid"
  have "fst (fold ?f [0..<size_kv s] (s, size_kv s)) = s"
  proof (rule fold_upt_invariant[where P = "\<lambda>st. fst st = s"])
    show "fst (s, size_kv s) = s" by simp
  next
    fix i and st :: "llama_kv_cache \<times> nat"
    assume i: "i < size_kv s" and p: "fst st = s"
    obtain nh where "st = (s, nh)" using p by (cases st) simp
    then show "fst (?f i st) = s" using seq_keep_step_blank[OF assms i] by simp
  qed
  then obtain nh where f: "fold ?f [0..<size_kv s] (s, size_kv s) = (s, nh)"
    by (cases "fold ?f [0..<size_kv s] (s, size_kv s)") simp
  have "head s = 0" using assms by (simp add: blank_def)
  then show ?thesis by (simp add: seq_keep_def f)
qed

text \<open>\<open>seq_add\<close> and \<open>seq_div\<close> on a blank cache\<close>

lemma seq_add_step_blank:
  assumes "blank s" "i < size_kv s"
  shows "seq_add_step sid p0 p1 d i (s, nh) = Inr (s, nh)"
  using blank_nth[OF assms] by (simp add: seq_add_step_def blank_cell_def has_seq_id_def Let_def)

lemma seq_div_step_blank:
  assumes "blank s" "i < size_kv s"
  shows "seq_div_step sid p0 p1 d i s = Inr s"
  using blank_nth[OF assms] by (simp add: seq_div_step_def blank_cell_def has_seq_id_def Let_def)

lemma blank_tail_cell:
  assumes "blank s" "0 \<le> sid" "sid < int (size_kv s)"
  shows "cell_at s sid = Inr (cells s ! nat sid)" "tail (cells s ! nat sid) = - 1"
proof -
  have i: "nat sid < size_kv s" using assms(2,3) by linarith
  show "cell_at s sid = Inr (cells s ! nat sid)"
    using i assms by (simp add: cell_at_def blank_def wf_cache_def)
  show "tail (cells s ! nat sid) = - 1" using blank_nth[OF assms(1) i] by (simp add: blank_cell_def)
qed

lemma seq_add_blank:
  assumes "blank s"
  shows "seq_add s sid p0 p1 d = Inr s"
proof -
  have h: "s\<lparr>head := 0\<rparr> = s" using assms by (simp add: blank_def head_zero_upd)
  have f: "fold_res (seq_add_step sid (norm_p0 p0) (norm_p1 p1) d) [0..<size_kv s] (s, size_kv s) = Inr (s, size_kv s)"
    by (rule fold_res_upt_id) (simp add: seq_add_step_blank[OF assms])
  have r: "seq_add_recurrent s sid (norm_p0 p0) (norm_p1 p1) d = Inr s"
    using blank_tail_cell[OF assms, of sid] by (simp add: seq_add_recurrent_def Let_def)
  show ?thesis by (simp add: seq_add_def Let_def f r h)
qed

lemma seq_div_blank:
  assumes "blank s"
  shows "seq_div s sid p0 p1 d = Inr s"
proof -
  have f: "fold_res (seq_div_step sid (norm_p0 p0) (norm_p1 p1) d) [0..<size_kv s] s = Inr s"
    by (rule fold_res_upt_id) (simp add: seq_div_step_blank[OF assms])
  have r: "seq_div_recurrent s sid (norm_p0 p0) (norm_p1 p1) d = Inr s"
    using blank_tail_cell[OF assms, of sid] by (simp add: seq_div_recurrent_def Let_def)
  show ?thesis by (simp add: seq_div_def Let_def f r)
qed

text \<open>\<open>clear\<close>\<close>

lemma clear_blank_id:
  assumes "blank s" "size_kv s < 2147483648"
  shows "clear s = s"
proof -
  have wf: "wf_cache s" using assms(1) by (simp add: blank_def)
  have "map (\<lambda>c. c\<lparr>pos := - 1, seq_id := {}, src := - 1, tail := - 1\<rparr>) (cells s) = cells s"
    using assms(1) by (intro map_idI) (simp add: blank_def list_all_iff blank_cell_upd)
  moreover have "head s = 0" "used s = 0" using assms(1) by (simp_all add: blank_def)
  ultimately show ?thesis using clear_eq[OF wf assms(2)] by (cases s) simp
qed

lemma clear_blank:
  assumes "wf_cache s" "size_kv s < 2147483648"
  shows "blank (clear s)"
  using assms by (simp add: clear_eq blank_def wf_cache_def list_all_iff blank_cell_def)

lemma init_blank: "blank (init r N)"
  by (simp add: blank_def init_def wf_cache_def blank_cell_def default_cell_def list_all_iff)

lemma init_fields [simp]:
  "size_kv (init r N) = N" "recurrent (init r N) = r" "length (cells (init r N)) = N"
  by (simp_all add: init_def)

lemma init_wf: "wf_cache (init r N)"
  by (simp add: wf_cache_def)

lemma clear_fields:
  assumes "wf_cache s" "size_kv s < 2147483648"
  shows "size_kv (clear s) = size_kv s" "recurrent (clear s) = recurrent s"
  by (simp_all add: clear_eq[OF assms])

lemma blank_cells_eq:
  "length cs = N \<Longrightarrow>
   map (\<lambda>c. c\<lparr>pos := - 1, seq_id := {}, src := - 1, tail := - 1\<rparr>) cs =
   map (\<lambda>i. (replicate N default_cell ! i)\<lparr>delta := delta (cs ! i)\<rparr>) [0..<N]"
  by (rule nth_equalityI) (simp_all add: default_cell_def)

lemma clear_as_with_aux:
  assumes "wf_cache s" "size_kv s < 2147483648"
  shows "clear s = with_aux (has_shift s) (do_defrag s) (n_kv s) (\<lambda>i. delta (cells s ! i))
                     (init (recurrent s) (size_kv s))"
  unfolding clear_eq[OF assms] using assms(1)
  by (cases s) (simp add: with_aux_def init_def wf_cache_def blank_cells_eq)

lemma core_clear:
  assumes "wf_cache s" "size_kv s < 2147483648"
  shows "core (clear s) = core (init (recurrent s) (size_kv s))"
  by (simp add: clear_as_with_aux[OF assms])

lemma find_slot_with_aux_core:
  assumes "wf_cache s"
  shows "map_sum id (map_prod id core) (find_slot (with_aux b d n f s) ub)
       = map_sum id (map_prod id core) (find_slot s ub)"
proof (cases "recurrent s")
  case True
  then show ?thesis by (simp add: find_slot_def find_slot_recurrent_with_aux)
next
  case False
  have "map_sum id (map_prod id core) (map_sum id (map_prod id (with_aux b d n f)) r)
      = map_sum id (map_prod id core) r" for r :: "error + slot_info \<times> llama_kv_cache"
    by (cases r) auto
  then show ?thesis using False
    by (simp add: find_slot_def find_slot_transformer_with_aux[OF assms])
qed

lemma find_slot_clear:
  assumes "wf_cache s" "size_kv s < 2147483648"
  shows "map_sum id (map_prod id core) (find_slot (clear s) ub)
       = map_sum id (map_prod id core) (find_slot (init (recurrent s) (size_kv s)) ub)"
  unfolding clear_as_with_aux[OF assms] by (rule find_slot_with_aux_core[OF init_wf])

lemma seq_rm_clear:
  assumes "wf_cache s" "size_kv s < 2147483648"
  shows "map_sum id (map_prod id core) (seq_rm (clear s) sid p0 p1)
       = map_sum id (map_prod id core) (seq_rm (init (recurrent s) (size_kv s)) sid p0 p1)"
  by (simp add: seq_rm_blank[OF clear_blank[OF assms]] seq_rm_blank[OF init_blank]
        clear_fields[OF assms] core_clear[OF assms])

lemma drop_info:
  assumes "map_sum id (map_prod id core) a = map_sum id (map_prod id core) b"
  shows "map_sum id core (bind_res a (\<lambda>(_, s'). Inr s')) = map_sum id core (bind_res b (\<lambda>(_, s'). Inr s'))"
  using assms by (cases a; cases b) auto

lemma operation_clear:
  assumes "wf_cache s" "size_kv s < 2147483648"
  shows "map_sum id core (apply_operation x (clear s))
       = map_sum id core (apply_operation x (init (recurrent s) (size_kv s)))"
proof (cases x)
  case (Find_Slot ub)
  then show ?thesis using drop_info[OF find_slot_clear[OF assms, of ub]] by simp
next
  case (Seq_Rm sid p0 p1)
  then show ?thesis using drop_info[OF seq_rm_clear[OF assms, of sid p0 p1]] by simp
next
  case (Seq_Cp a b p0 p1)
  then show ?thesis
    by (simp add: seq_cp_blank[OF clear_blank[OF assms]] seq_cp_blank[OF init_blank]
        clear_fields[OF assms] core_clear[OF assms])
next
  case (Seq_Keep sid)
  then show ?thesis
    by (simp add: seq_keep_blank[OF clear_blank[OF assms]] seq_keep_blank[OF init_blank] core_clear[OF assms])
next
  case (Seq_Add sid p0 p1 d)
  then show ?thesis
    by (simp add: seq_add_blank[OF clear_blank[OF assms]] seq_add_blank[OF init_blank] core_clear[OF assms])
next
  case (Seq_Div sid p0 p1 d)
  then show ?thesis
    by (simp add: seq_div_blank[OF clear_blank[OF assms]] seq_div_blank[OF init_blank] core_clear[OF assms])
next
  case Clear
  have "clear (clear s) = clear s"
    by (rule clear_blank_id[OF clear_blank[OF assms]]) (simp add: clear_fields[OF assms] assms(2))
  moreover have "clear (init (recurrent s) (size_kv s)) = init (recurrent s) (size_kv s)"
    by (rule clear_blank_id[OF init_blank]) (simp add: assms(2))
  ultimately show ?thesis using Clear by (simp add: core_clear[OF assms])
qed

text \<open>
  Claim C7, amended. \<open>clear\<close> resets \<open>pos\<close>, \<open>src\<close>, \<open>tail\<close> and the set of sequence ids of
  every cell and the members \<open>head\<close> and \<open>used\<close>; it does not reset \<open>delta\<close>, \<open>has_shift\<close>,
  \<open>do_defrag\<close> or \<open>n\<close>. For two caches of the same size (below \<open>2^31\<close>) and the same mode,
  each with \<open>size\<close> cells, \<open>clear\<close> followed by the same public operation gives the same
  outcome: the same undefined behaviour, or the same return value and end states that are
  equal in every member but \<open>has_shift\<close>, \<open>do_defrag\<close>, \<open>n\<close> and the \<open>delta\<close> of the cells
  (\<open>core\<close> forgets these). The outcome is the one the operation has on the initial state.
\<close>

theorem clear_then_operation:
  assumes "wf_cache s1" and "wf_cache s2" and "size_kv s1 = size_kv s2"
    and "recurrent s1 = recurrent s2" and "size_kv s1 < 2147483648"
  shows "map_sum id core (apply_operation x (clear s1)) = map_sum id core (apply_operation x (clear s2)) \<and>
         map_sum id core (apply_operation x (clear s1)) =
           map_sum id core (apply_operation x (init (recurrent s1) (size_kv s1))) \<and>
         map_sum id (map_prod id core) (find_slot (clear s1) ub) =
           map_sum id (map_prod id core) (find_slot (clear s2) ub) \<and>
         map_sum id (map_prod id core) (seq_rm (clear s1) sid p0 p1) =
           map_sum id (map_prod id core) (seq_rm (clear s2) sid p0 p1)"
proof -
  have sz2: "size_kv s2 < 2147483648" using assms(3,5) by simp
  have a: "map_sum id core (apply_operation x (clear s1)) =
           map_sum id core (apply_operation x (init (recurrent s1) (size_kv s1)))"
    by (rule operation_clear[OF assms(1,5)])
  have b: "map_sum id core (apply_operation x (clear s2)) =
           map_sum id core (apply_operation x (init (recurrent s1) (size_kv s1)))"
    using operation_clear[OF assms(2) sz2, of x] assms(3,4) by simp
  have c: "map_sum id (map_prod id core) (find_slot (clear s1) ub) =
           map_sum id (map_prod id core) (find_slot (clear s2) ub)"
    using find_slot_clear[OF assms(1,5), of ub] find_slot_clear[OF assms(2) sz2, of ub] assms(3,4) by simp
  have d: "map_sum id (map_prod id core) (seq_rm (clear s1) sid p0 p1) =
           map_sum id (map_prod id core) (seq_rm (clear s2) sid p0 p1)"
    using seq_rm_clear[OF assms(1,5), of sid p0 p1] seq_rm_clear[OF assms(2) sz2, of sid p0 p1] assms(3,4)
    by simp
  show ?thesis using a b c d by simp
qed

lemma cache1_add5: "seq_add (cache1 0) 0 0 1 5 = Inr shifted1"
  by (simp add: seq_add_def seq_add_step_def cache1_def shifted1_def norm_p0_def norm_p1_def has_seq_id_def
        is_empty_def upt_1 Let_def i32_result_def in_i32_def)

lemma run_shifted1: "run [Find_Slot (ub_tok 0), Seq_Add 0 0 1 5] (init False 1) = Inr shifted1"
  by (subst run_find_slot1) (simp only: run_Cons run_Nil apply_operation.simps cache1_add5 bind_res_simps)

lemma clear_init1: "clear (init False 1) = init False 1"
  by (simp add: clear_def init_def i32_def default_cell_def upt_1 Let_def)

lemma clear_shifted1:
  "clear shifted1 = \<lparr>has_shift = True, do_defrag = False, recurrent = False, head = 0, size_kv = 1,
               used = 0, n_kv = 0,
               cells = [\<lparr>pos = -1, delta = 5, src = -1, tail = -1, seq_id = {}\<rparr>]\<rparr>"
  by (simp add: clear_def shifted1_def i32_def upt_1 Let_def)

lemma refill_init1: "apply_operation (Find_Slot (ub_tok 7)) (clear (init False 1)) = Inr (cache1 7)"
  by (simp only: apply_operation.simps clear_init1 find_slot_init1 bind_res_simps prod.case)

lemma refill_shifted1: "apply_operation (Find_Slot (ub_tok 7)) (clear shifted1) = Inr shifted1_refilled"
  by (simp add: clear_shifted1 shifted1_refilled_def find_slot_def find_slot_transformer_def ub_tok_def
        find_slot_scan.simps scan_step_def stamp_all_def stamp_token_def arr_at_def cell_at_def set_cell_def
        seq_id_at_def add32_def upt_1)

text \<open>
  Claim C7 as stated fails: \<open>clear\<close> does not reset \<open>has_shift\<close> nor the \<open>delta\<close> of a cell.
  From the initial state of a pool of one cell, and from the state after one token and
  \<open>seq_add(0, 0, 1, 5)\<close>, \<open>clear\<close> followed by the same \<open>find_slot\<close> gives end states that
  differ in \<open>has_shift\<close> and in the \<open>delta\<close> of cell \<open>0\<close>.
\<close>

theorem clear_history_counterexample:
  "\<exists>s1 s2 t1 t2. run [] (init False 1) = Inr s1 \<and>
     run [Find_Slot (ub_tok 0), Seq_Add 0 0 1 5] (init False 1) = Inr s2 \<and>
     size_kv s1 = size_kv s2 \<and>
     apply_operation (Find_Slot (ub_tok 7)) (clear s1) = Inr t1 \<and>
     apply_operation (Find_Slot (ub_tok 7)) (clear s2) = Inr t2 \<and>
     t1 \<noteq> t2 \<and> \<not> has_shift t1 \<and> has_shift t2 \<and>
     delta (cells t1 ! 0) = 0 \<and> delta (cells t2 ! 0) = 5"
proof -
  have a: "size_kv (init False 1) = size_kv shifted1" by (simp add: shifted1_def)
  have b: "\<not> has_shift (cache1 7)" "has_shift shifted1_refilled"
    "delta (cells (cache1 7) ! 0) = 0" "delta (cells shifted1_refilled ! 0) = 5"
    by (simp_all add: cache1_def shifted1_refilled_def)
  then have c: "cache1 7 \<noteq> shifted1_refilled" by auto
  show ?thesis
    apply (rule exI[of _ "init False 1"])
    apply (rule exI[of _ shifted1])
    apply (rule exI[of _ "cache1 7"])
    apply (rule exI[of _ shifted1_refilled])
    using a b c run_shifted1 refill_init1 refill_shifted1 by simp
qed

theorem clear_then_operation_witness:
  "wf_cache (init False 1) \<and> wf_cache shifted1 \<and> size_kv (init False 1) = size_kv shifted1 \<and>
   recurrent (init False 1) = recurrent shifted1 \<and> size_kv (init False 1) < 2147483648 \<and>
   apply_operation (Find_Slot (ub_tok 7)) (clear (init False 1)) = Inr (cache1 7) \<and>
   apply_operation (Find_Slot (ub_tok 7)) (clear shifted1) = Inr shifted1_refilled \<and>
   core (cache1 7) = core shifted1_refilled \<and>
   cache1 7 = shifted1_refilled\<lparr>has_shift := False, cells := map (\<lambda>c. c\<lparr>delta := 0\<rparr>) (cells shifted1_refilled)\<rparr>"
proof -
  have h: "wf_cache (init False 1)" "wf_cache shifted1" "size_kv (init False 1) = size_kv shifted1"
    "recurrent (init False 1) = recurrent shifted1" "size_kv (init False 1) < 2147483648"
    by (simp_all add: wf_cache_def shifted1_def)
  from clear_then_operation[OF h, of "Find_Slot (ub_tok 7)"]
  have "map_sum id core (apply_operation (Find_Slot (ub_tok 7)) (clear (init False 1))) =
        map_sum id core (apply_operation (Find_Slot (ub_tok 7)) (clear shifted1))"
    by blast
  then have "map_sum id core (Inr (cache1 7) :: error + llama_kv_cache) = map_sum id core (Inr shifted1_refilled)"
    by (simp only: refill_init1 refill_shifted1)
  then have c: "core (cache1 7) = core shifted1_refilled" by simp
  have e: "cache1 7 = shifted1_refilled\<lparr>has_shift := False, cells := map (\<lambda>c. c\<lparr>delta := 0\<rparr>) (cells shifted1_refilled)\<rparr>"
    by (simp add: cache1_def shifted1_refilled_def)
  show ?thesis using h c e refill_init1 refill_shifted1 by blast
qed

end
